theory Spec2Isabelle
  imports Main "HOL-Library.Sublist"
begin

section \<open>Go strings\<close>

text \<open>
  A Go string is a sequence of bytes, modelled as \<open>string\<close> (a \<open>char list\<close>).
  The functions of package \<open>strings\<close> that the bridge uses are written out here with
  the results the Go library documents for them.
\<close>

abbreviation (input) LF :: char where "LF \<equiv> CHR 0x0A"
abbreviation (input) CR :: char where "CR \<equiv> CHR 0x0D"
abbreviation (input) TAB :: char where "TAB \<equiv> CHR 0x09"
abbreviation (input) SPC :: char where "SPC \<equiv> CHR 0x20"
abbreviation (input) BSL :: char where "BSL \<equiv> CHR 0x5C"

text \<open>
  \<open>strings.Split(s, sep)\<close> for a one-byte separator: the pieces between the separators,
  \<open>n + 1\<close> pieces for \<open>n\<close> separators, so the empty string gives one empty piece.
\<close>

fun Split :: "char \<Rightarrow> string \<Rightarrow> string list" where
  "Split sep [] = [[]]"
| "Split sep (c # cs) =
     (if c = sep then [] # Split sep cs
      else (case Split sep cs of [] \<Rightarrow> [[c]] | p # ps \<Rightarrow> (c # p) # ps))"

text \<open>\<open>strings.TrimRight(s, cutset)\<close>: drop the trailing bytes that occur in \<open>cutset\<close>.\<close>

definition TrimRight :: "string \<Rightarrow> string \<Rightarrow> string" where
  "TrimRight s cutset = rev (dropWhile (\<lambda>c. c \<in> set cutset) (rev s))"

text \<open>\<open>strings.TrimLeft(s, cutset)\<close>: drop the leading bytes that occur in \<open>cutset\<close>.\<close>

definition TrimLeft :: "string \<Rightarrow> string \<Rightarrow> string" where
  "TrimLeft s cutset = dropWhile (\<lambda>c. c \<in> set cutset) s"

text \<open>\<open>strings.Join(elems, sep)\<close>.\<close>

fun Join :: "string list \<Rightarrow> string \<Rightarrow> string" where
  "Join [] sep = []"
| "Join [x] sep = x"
| "Join (x # y # zs) sep = x @ sep @ Join (y # zs) sep"

text \<open>\<open>strings.ReplaceAll(s, old, new)\<close> for one-byte \<open>old\<close> and \<open>new\<close>.\<close>

definition ReplaceAll :: "string \<Rightarrow> char \<Rightarrow> char \<Rightarrow> string" where
  "ReplaceAll s old new = map (\<lambda>c. if c = old then new else c) s"

text \<open>\<open>strings.HasPrefix\<close>.\<close>

definition HasPrefix :: "string \<Rightarrow> string \<Rightarrow> bool" where
  "HasPrefix s p = (take (length p) s = p)"

text \<open>
  \<open>strings.TrimSpace(s)\<close> removes leading and trailing white space as defined by Unicode
  (\<open>unicode.IsSpace\<close>). On bytes these are the UTF-8 encodings listed below: the six
  ASCII characters, U+0085, U+00A0, U+1680, U+2000 to U+200A, U+2028, U+2029, U+202F,
  U+205F and U+3000. A byte that does not start one of these encodings stops the trim.
\<close>

definition unicode_spaces :: "string list" where
  "unicode_spaces =
     [[TAB], [LF], [CHR 0x0B], [CHR 0x0C], [CR], [SPC],
      [CHR 0xC2, CHR 0x85], [CHR 0xC2, CHR 0xA0], [CHR 0xE1, CHR 0x9A, CHR 0x80],
      [CHR 0xE2, CHR 0x80, CHR 0x80], [CHR 0xE2, CHR 0x80, CHR 0x81],
      [CHR 0xE2, CHR 0x80, CHR 0x82], [CHR 0xE2, CHR 0x80, CHR 0x83],
      [CHR 0xE2, CHR 0x80, CHR 0x84], [CHR 0xE2, CHR 0x80, CHR 0x85],
      [CHR 0xE2, CHR 0x80, CHR 0x86], [CHR 0xE2, CHR 0x80, CHR 0x87],
      [CHR 0xE2, CHR 0x80, CHR 0x88], [CHR 0xE2, CHR 0x80, CHR 0x89],
      [CHR 0xE2, CHR 0x80, CHR 0x8A], [CHR 0xE2, CHR 0x80, CHR 0xA8],
      [CHR 0xE2, CHR 0x80, CHR 0xA9], [CHR 0xE2, CHR 0x80, CHR 0xAF],
      [CHR 0xE2, CHR 0x81, CHR 0x9F], [CHR 0xE3, CHR 0x80, CHR 0x80]]"

fun strip_token :: "string list \<Rightarrow> string \<Rightarrow> string option" where
  "strip_token [] s = None"
| "strip_token (t # ts) s =
     (if t \<noteq> [] \<and> HasPrefix s t then Some (drop (length t) s) else strip_token ts s)"

function trim_tokens :: "string list \<Rightarrow> string \<Rightarrow> string" where
  "trim_tokens toks s =
     (case strip_token toks s of None \<Rightarrow> s | Some s' \<Rightarrow> trim_tokens toks s')"
  by pat_completeness auto

termination trim_tokens
proof (relation "measure (\<lambda>(toks, s). length s)")
  show "wf (measure (\<lambda>(toks, s). length s))" by simp
next
  fix toks :: "string list" and s s' :: string
  assume "strip_token toks s = Some s'"
  moreover have "length s - length t < length s" if "t \<noteq> []" "take (length t) s = t" for t
  proof -
    from that have "s \<noteq> []" by auto
    with that(1) show ?thesis by (simp add: diff_less)
  qed
  ultimately have "length s' < length s"
    by (induction toks) (auto simp: HasPrefix_def split: if_splits)
  then show "((toks, s'), (toks, s)) \<in> measure (\<lambda>(toks, s). length s)" by simp
qed

definition TrimSpace :: "string \<Rightarrow> string" where
  "TrimSpace s =
     rev (trim_tokens (map rev unicode_spaces) (rev (trim_tokens unicode_spaces s)))"

text \<open>\<open>strings.ToLower\<close> on ASCII letters (the code applies it to a drive letter only).\<close>

definition in_range :: "char \<Rightarrow> char \<Rightarrow> char \<Rightarrow> bool" where
  "in_range lo hi c = ((of_char lo :: nat) \<le> of_char c \<and> (of_char c :: nat) \<le> of_char hi)"

definition lower_char :: "char \<Rightarrow> char" where
  "lower_char c = (if in_range (CHR ''A'') (CHR ''Z'') c then char_of (of_char c + (32::nat)) else c)"

definition ToLower :: "string \<Rightarrow> string" where
  "ToLower s = map lower_char s"

section \<open>Regular expressions\<close>

text \<open>
  The patterns of the code are terms of \<open>rx\<close>; \<open>rx_match r s\<close> decides whether the whole
  of \<open>s\<close> matches \<open>r\<close>, by taking the derivative of \<open>r\<close> by each byte of \<open>s\<close> in turn.
  Go's \<open>MatchString\<close> on a pattern \<open>^r$\<close> is \<open>rx_match r\<close>; on a pattern \<open>^r\<close>, with no
  \<open>$\<close>, it is \<open>rx_match_prefix r\<close>. Without the \<open>m\<close> flag \<open>^\<close> and \<open>$\<close> match at the
  two ends of the text only.
\<close>

datatype rx = Zero | One | Atom "char \<Rightarrow> bool" | Alt rx rx | Seq rx rx | Star rx

primrec nullable :: "rx \<Rightarrow> bool" where
  "nullable Zero = False"
| "nullable One = True"
| "nullable (Atom P) = False"
| "nullable (Alt r s) = (nullable r \<or> nullable s)"
| "nullable (Seq r s) = (nullable r \<and> nullable s)"
| "nullable (Star r) = True"

primrec deriv :: "char \<Rightarrow> rx \<Rightarrow> rx" where
  "deriv c Zero = Zero"
| "deriv c One = Zero"
| "deriv c (Atom P) = (if P c then One else Zero)"
| "deriv c (Alt r s) = Alt (deriv c r) (deriv c s)"
| "deriv c (Seq r s) =
     (if nullable r then Alt (Seq (deriv c r) s) (deriv c s) else Seq (deriv c r) s)"
| "deriv c (Star r) = Seq (deriv c r) (Star r)"

primrec rx_match :: "rx \<Rightarrow> string \<Rightarrow> bool" where
  "rx_match r [] = nullable r"
| "rx_match r (c # cs) = rx_match (deriv c r) cs"

primrec Seqs :: "rx list \<Rightarrow> rx" where
  "Seqs [] = One"
| "Seqs (r # rs) = Seq r (Seqs rs)"

definition Lit :: "string \<Rightarrow> rx" where
  "Lit s = Seqs (map (\<lambda>c. Atom (\<lambda>d. d = c)) s)"

definition Opt :: "rx \<Rightarrow> rx" where
  "Opt r = Alt r One"

definition Plus :: "rx \<Rightarrow> rx" where
  "Plus r = Seq r (Star r)"

definition Rep :: "nat \<Rightarrow> rx \<Rightarrow> rx" where
  "Rep n r = Seqs (replicate n r)"

definition AnyByte :: rx where
  "AnyByte = Atom (\<lambda>c. True)"

definition rx_match_prefix :: "rx \<Rightarrow> string \<Rightarrow> bool" where
  "rx_match_prefix r s = rx_match (Seq r (Star AnyByte)) s"

text \<open>The character classes: \<open>\s\<close> is \<open>[\t\n\f\r ]\<close>, \<open>\d\<close> is \<open>[0-9]\<close>.\<close>

definition cls_s :: "char \<Rightarrow> bool" where
  "cls_s c = (c = TAB \<or> c = LF \<or> c = CHR 0x0C \<or> c = CR \<or> c = SPC)"

definition cls_d :: "char \<Rightarrow> bool" where
  "cls_d c = in_range (CHR ''0'') (CHR ''9'') c"

definition cls_upper :: "char \<Rightarrow> bool" where
  "cls_upper c = in_range (CHR ''A'') (CHR ''Z'') c"

definition cls_tag :: "char \<Rightarrow> bool" where
  "cls_tag c = (in_range (CHR ''A'') (CHR ''Z'') c \<or> in_range (CHR ''0'') (CHR ''9'') c
                \<or> c = CHR ''_'')"

definition cls_letter :: "char \<Rightarrow> bool" where
  "cls_letter c = (in_range (CHR ''A'') (CHR ''Z'') c \<or> in_range (CHR ''a'') (CHR ''z'') c)"

section \<open>Protocol markers\<close>

definition ReqIDPrefix :: string where
  "ReqIDPrefix = ''CCB_REQ_ID:''"

definition DonePrefix :: string where
  "DonePrefix = ''CCB_DONE:''"

text \<open>The request stamp \<open>\d{8}-\d{6}-\d{3}-\d+\<close> that two of the patterns share.\<close>

definition stampRE :: rx where
  "stampRE = Seqs [Rep 8 (Atom cls_d), Lit ''-'', Rep 6 (Atom cls_d), Lit ''-'',
                   Rep 3 (Atom cls_d), Lit ''-'', Plus (Atom cls_d)]"

text \<open>\<^verbatim>\<open>^\s*[A-Z][A-Z0-9_]*_DONE(?:\s*:\s*\d{8}-\d{6}-\d{3}-\d+)?\s*$\<close>\<close>

definition genericDoneTagRE :: rx where
  "genericDoneTagRE =
     Seqs [Star (Atom cls_s), Atom cls_upper, Star (Atom cls_tag), Lit ''_DONE'',
           Opt (Seqs [Star (Atom cls_s), Lit '':'', Star (Atom cls_s), stampRE]),
           Star (Atom cls_s)]"

text \<open>\<^verbatim>\<open>^\s*CCB_DONE\s*:\<close> (no \<open>$\<close>: a prefix pattern)\<close>

definition ccbDonePrefixRE :: rx where
  "ccbDonePrefixRE = Seqs [Star (Atom cls_s), Lit ''CCB_DONE'', Star (Atom cls_s), Lit '':'']"

text \<open>\<^verbatim>\<open>^\s*CCB_DONE:\s*\d{8}-\d{6}-\d{3}-\d+\s*$\<close>\<close>

definition anyCCBDoneLineRE :: rx where
  "anyCCBDoneLineRE =
     Seqs [Star (Atom cls_s), Lit ''CCB_DONE:'', Star (Atom cls_s), stampRE, Star (Atom cls_s)]"

definition isGenericDoneTag :: "string \<Rightarrow> bool" where
  "isGenericDoneTag line =
     (rx_match genericDoneTagRE line \<and> \<not> rx_match_prefix ccbDonePrefixRE line)"

text \<open>
  \<open>DoneLineRE\<close>: \<^verbatim>\<open>^\s*CCB_DONE:\s*\<close>, the request ID quoted by \<open>regexp.QuoteMeta\<close>, then
  \<^verbatim>\<open>\s*$\<close>. A quoted string matches itself only. (The request ID is text in UTF-8, as
  \<open>MakeReqID\<close> and the JSON decoder produce it; \<open>MustCompile\<close> accepts every such pattern.)
\<close>

definition DoneLineRE :: "string \<Rightarrow> rx" where
  "DoneLineRE reqID =
     Seqs [Star (Atom cls_s), Lit ''CCB_DONE:'', Star (Atom cls_s), Lit reqID,
           Star (Atom cls_s)]"

definition isTrailingNoiseLine :: "string \<Rightarrow> bool" where
  "isTrailingNoiseLine line = (if TrimSpace line = [] then True else isGenericDoneTag line)"

definition splitLines :: "string \<Rightarrow> string list" where
  "splitLines text =
     (if text = [] then [] else map (\<lambda>l. TrimRight l [CR, LF]) (Split LF text))"

text \<open>
  The loops that pop lines off the end of the slice run over the reversed list:
  \<open>strip_while P\<close> pops while the last line satisfies \<open>P\<close>.
\<close>

definition strip_while :: "(string \<Rightarrow> bool) \<Rightarrow> string list \<Rightarrow> string list" where
  "strip_while P lines = rev (dropWhile P (rev lines))"

definition StripTrailingMarkers :: "string \<Rightarrow> string" where
  "StripTrailingMarkers text =
     (let lines = splitLines text;
          lines = strip_while (\<lambda>l. isTrailingNoiseLine l \<or> rx_match anyCCBDoneLineRE l) lines
      in TrimRight (Join lines [LF]) [LF, CR, TAB, SPC])"

text \<open>\<open>IsDoneText\<close>: the loop from the last line down, as a scan of the reversed lines.\<close>

fun done_scan :: "rx \<Rightarrow> string list \<Rightarrow> bool" where
  "done_scan re [] = False"
| "done_scan re (l # ls) = (if isTrailingNoiseLine l then done_scan re ls else rx_match re l)"

definition IsDoneText :: "string \<Rightarrow> string \<Rightarrow> bool" where
  "IsDoneText text reqID = done_scan (DoneLineRE reqID) (rev (splitLines text))"

definition StripDoneText :: "string \<Rightarrow> string \<Rightarrow> string" where
  "StripDoneText text reqID =
     (let lines = splitLines text
      in if length lines = 0 then []
         else
           let lines = strip_while isTrailingNoiseLine lines;
               re = DoneLineRE reqID;
               lines = (if length lines > 0 \<and> rx_match re (last lines)
                        then butlast lines else lines);
               lines = strip_while isTrailingNoiseLine lines
           in TrimRight (Join lines [LF]) [LF, CR, TAB, SPC])"

definition WrapCodexPrompt :: "string \<Rightarrow> string \<Rightarrow> string" where
  "WrapCodexPrompt message reqID =
     (let message = TrimRight message [LF, CR, TAB, SPC]
      in ReqIDPrefix @ '' '' @ reqID @ [LF, LF] @ message @ [LF, LF]
         @ ''IMPORTANT:'' @ [LF]
         @ ''- Reply normally.'' @ [LF]
         @ ''- Reply normally, in English.'' @ [LF]
         @ ''- End your reply with this exact final line (verbatim, on its own line):'' @ [LF]
         @ DonePrefix @ '' '' @ reqID @ [LF])"

section \<open>Forward tailer: \<open>LogReader\<close>\<close>

text \<open>
  The reader's fields (the mutex is not modelled: every method holds it from entry to
  exit, so the methods run one after another). The file system is a map from paths to
  file contents; a path outside its domain cannot be opened.
\<close>

record LogReader =
  FilePath :: string
  offset :: int
  carry :: string

datatype io_error = NotExist | InvalidSeek

type_synonym filesystem = "string \<rightharpoonup> string"

definition NewLogReader :: "string \<Rightarrow> LogReader" where
  "NewLogReader path = \<lparr>FilePath = path, offset = 0, carry = []\<rparr>"

text \<open>
  \<open>ReadNew\<close> returns the lines (or the error) and the reader as the call leaves it.
  \<open>Seek\<close> fails on a negative offset; the other I/O calls succeed on a file that opens.
\<close>

definition ReadNew :: "filesystem \<Rightarrow> LogReader \<Rightarrow> (io_error + string list) \<times> LogReader" where
  "ReadNew fs r =
     (case fs (FilePath r) of
        None \<Rightarrow> (Inl NotExist, r)
      | Some content \<Rightarrow>
          let size = int (length content);
              r1 = (if size < offset r then r\<lparr>offset := 0, carry := []\<rparr> else r)
          in if size = offset r1 then (Inr [], r1)
             else if offset r1 < 0 then (Inl InvalidSeek, r1)
             else
               let data = drop (nat (offset r1)) content;
                   r2 = r1\<lparr>offset := offset r1 + int (length data)\<rparr>;
                   text = carry r2 @ data;
                   r3 = r2\<lparr>carry := []\<rparr>;
                   parts = Split LF text
               in if length parts = 0 then (Inr [], r3)
                  else (Inr (map (\<lambda>p. TrimRight p [CR]) (butlast parts)),
                        r3\<lparr>carry := last parts\<rparr>))"

section \<open>Reverse tailer: \<open>ReverseReader\<close>\<close>

record ReverseReader =
  RFilePath :: string
  ChunkSize :: int

definition defaultChunkSize :: int where
  "defaultChunkSize = 8192"

definition NewReverseReader :: "string \<Rightarrow> ReverseReader" where
  "NewReverseReader path = \<lparr>RFilePath = path, ChunkSize = defaultChunkSize\<rparr>"

text \<open>Go's \<open>int\<close> on a 64-bit platform: the value of an arithmetic result after wrap-around.\<close>

definition int64 :: "int \<Rightarrow> int" where
  "int64 x = (x + 2 ^ 63) mod 2 ^ 64 - 2 ^ 63"

text \<open>
  The loop of \<open>ReadLastLines\<close>. Its state is \<open>pos\<close>, \<open>collected\<close> and \<open>leftover\<close>; one
  round reads the chunk that ends at \<open>pos\<close>. \<open>ReadLastLines\<close> enters it with a positive
  chunk size; the test \<open>0 < chunkSize\<close> makes the recursion total for the other values
  too.
\<close>

function rr_loop ::
  "string \<Rightarrow> int \<Rightarrow> int \<Rightarrow> int \<Rightarrow> string list \<Rightarrow> string \<Rightarrow> string list \<times> string" where
  "rr_loop content chunkSize n pos collected leftover =
     (if pos > 0 \<and> int (length collected) < int64 (n + 1) \<and> 0 < chunkSize then
        let readSize = (if pos < chunkSize then pos else chunkSize);
            pos' = pos - readSize;
            buf = take (nat readSize) (drop (nat pos') content);
            chunk = buf @ leftover;
            parts = Split LF chunk;
            leftover' = (if pos' > 0 then hd parts else []);
            parts' = (if pos' > 0 then tl parts else parts);
            collected' = map (\<lambda>p. TrimRight p [CR]) parts' @ collected
        in rr_loop content chunkSize n pos' collected' leftover'
      else (collected, leftover))"
  by pat_completeness auto

termination rr_loop
  by (relation "measure (\<lambda>(content, chunkSize, n, pos, collected, leftover). nat pos)")
     (auto split: if_splits)

definition ReadLastLines ::
  "filesystem \<Rightarrow> ReverseReader \<Rightarrow> int \<Rightarrow> io_error + string list" where
  "ReadLastLines fs r n =
     (if n \<le> 0 then Inr []
      else case fs (RFilePath r) of
        None \<Rightarrow> Inl NotExist
      | Some content \<Rightarrow>
          let fileSize = int (length content)
          in if fileSize = 0 then Inr []
             else
               let chunkSize = (if ChunkSize r \<le> 0 then defaultChunkSize else ChunkSize r);
                   (collected, leftover) = rr_loop content chunkSize n fileSize [] [];
                   collected = (if leftover \<noteq> [] then TrimRight leftover [CR] # collected
                                else collected);
                   collected = strip_while (\<lambda>l. l = []) collected;
                   collected = (if int (length collected) > n
                                then drop (nat (int (length collected) - n)) collected
                                else collected)
               in Inr collected)"

text \<open>\<open>readAllLines\<close>, the whole-file reader of the same package.\<close>

definition readAllLines :: "filesystem \<Rightarrow> string \<Rightarrow> io_error + string list" where
  "readAllLines fs path =
     (case fs path of
        None \<Rightarrow> Inl NotExist
      | Some text \<Rightarrow>
          if text = [] then Inr []
          else Inr (strip_while (\<lambda>l. l = []) (map (\<lambda>p. TrimRight p [CR]) (Split LF text))))"

section \<open>Project identity\<close>

text \<open>
  What the process sees of its surroundings: the environment variables, the home and
  working directories (\<open>None\<close> when the call fails), \<open>runtime.GOOS\<close>, which paths exist
  (\<open>os.Stat\<close> succeeds), which of them are directories, and what a file reads as.
\<close>

record Env =
  getenv :: "string \<Rightarrow> string"
  env_is_set :: "string \<Rightarrow> bool"
  home :: "string option"
  cwd :: "string option"
  GOOS :: string
  exists_path :: "string \<Rightarrow> bool"
  is_dir :: "string \<Rightarrow> bool"
  read_file :: "string \<rightharpoonup> string"

text \<open>
  \<open>filepath.Clean\<close>, \<open>filepath.Join\<close>, \<open>filepath.IsAbs\<close> and \<open>filepath.Abs\<close> as they are on
  a build whose separator is \<open>/\<close>: \<open>Clean\<close> drops empty and \<open>.\<close> elements, resolves each
  \<open>..\<close> against the element before it, drops a \<open>..\<close> that would climb above the root, and
  returns \<open>.\<close> for an empty result.
\<close>

fun clean_elems :: "string list \<Rightarrow> bool \<Rightarrow> string list \<Rightarrow> string list" where
  "clean_elems [] rooted out = rev out"
| "clean_elems (e # es) rooted out =
     (if e = [] \<or> e = ''.'' then clean_elems es rooted out
      else if e = ''..'' then
        (case out of
           [] \<Rightarrow> if rooted then clean_elems es rooted [] else clean_elems es rooted [''..'']
         | prev # below \<Rightarrow>
             if prev = ''..'' then clean_elems es rooted (''..'' # out)
             else clean_elems es rooted below)
      else clean_elems es rooted (e # out))"

definition Clean :: "string \<Rightarrow> string" where
  "Clean path =
     (if path = [] then ''.''
      else
        let rooted = (hd path = CHR ''/'');
            body = Join (clean_elems (Split (CHR ''/'') path) rooted []) ''/''
        in if rooted then ''/'' @ body else if body = [] then ''.'' else body)"

definition JoinPath :: "string list \<Rightarrow> string" where
  "JoinPath elems =
     (let used = filter (\<lambda>e. e \<noteq> []) elems
      in if used = [] then [] else Clean (Join used ''/''))"

definition IsAbs :: "string \<Rightarrow> bool" where
  "IsAbs path = HasPrefix path ''/''"

definition Abs :: "Env \<Rightarrow> string \<Rightarrow> string option" where
  "Abs env path =
     (if IsAbs path then Some (Clean path)
      else case cwd env of None \<Rightarrow> None | Some wd \<Rightarrow> Some (JoinPath [wd, path]))"

text \<open>\<^verbatim>\<open>^[A-Za-z]:([/\\]|$)\<close> (a prefix pattern whose second branch ends the text)\<close>

definition winDriveRE :: "string \<Rightarrow> bool" where
  "winDriveRE s =
     rx_match (Seqs [Atom cls_letter, Lit '':'',
                     Alt (Seq (Atom (\<lambda>c. c = CHR ''/'' \<or> c = BSL)) (Star AnyByte)) One]) s"

text \<open>
  \<^verbatim>\<open>^/mnt/([A-Za-z])/(.*)$\<close> and \<^verbatim>\<open>^/([A-Za-z])/(.*)$\<close> with their two groups; \<open>.\<close>
  matches every byte but the newline. The groups sit at fixed places of a matching text.
\<close>

definition mntDriveRE :: "string \<Rightarrow> (string \<times> string) option" where
  "mntDriveRE s =
     (if rx_match (Seqs [Lit ''/mnt/'', Atom cls_letter, Lit ''/'', Star (Atom (\<lambda>c. c \<noteq> LF))]) s
      then Some (take 1 (drop 5 s), drop 7 s) else None)"

definition msysDriveRE :: "string \<Rightarrow> (string \<times> string) option" where
  "msysDriveRE s =
     (if rx_match (Seqs [Lit ''/'', Atom cls_letter, Lit ''/'', Star (Atom (\<lambda>c. c \<noteq> LF))]) s
      then Some (take 1 (drop 1 s), drop 3 s) else None)"

definition cleanPosixPath :: "string \<Rightarrow> string" where
  "cleanPosixPath p = ReplaceAll (Clean p) BSL (CHR ''/'')"

definition NormalizeWorkDir :: "Env \<Rightarrow> string \<Rightarrow> string" where
  "NormalizeWorkDir env val =
     (let raw = TrimSpace val
      in if raw = [] then []
         else
           let raw = (if HasPrefix raw ''~''
                      then (case home env of Some h \<Rightarrow> h @ drop 1 raw | None \<Rightarrow> raw)
                      else raw);
               preview = ReplaceAll raw BSL (CHR ''/'');
               isAbs = (HasPrefix preview ''/'' \<or> HasPrefix preview ''//''
                        \<or> HasPrefix raw [BSL, BSL] \<or> winDriveRE preview);
               raw = (if \<not> isAbs
                      then (case cwd env of Some wd \<Rightarrow> JoinPath [wd, raw] | None \<Rightarrow> raw)
                      else raw);
               s = ReplaceAll raw BSL (CHR ''/'');
               s = (case mntDriveRE s of
                      Some (drive, rest) \<Rightarrow> ToLower drive @ '':/'' @ rest
                    | None \<Rightarrow>
                        (case msysDriveRE s of
                           Some (drive, rest) \<Rightarrow>
                             if env_is_set env ''MSYSTEM'' \<or> GOOS env = ''windows''
                             then ToLower drive @ '':/'' @ rest else s
                         | None \<Rightarrow> s));
               s = (if HasPrefix s ''//''
                    then ''//'' @ TrimLeft (cleanPosixPath (drop 2 s)) ''/''
                    else cleanPosixPath s)
           in if winDriveRE s then ToLower (take 1 s) @ drop 1 s else s)"

definition findCCBConfigRoot :: "Env \<Rightarrow> string \<Rightarrow> string" where
  "findCCBConfigRoot env startDir =
     (let abs = (case Abs env startDir of
                   Some a \<Rightarrow> a
                 | None \<Rightarrow> (case cwd env of Some wd \<Rightarrow> wd | None \<Rightarrow> []));
          cfg = JoinPath [abs, ''.ccb_config'']
      in if exists_path env cfg \<and> is_dir env cfg then abs else [])"

text \<open>
  \<open>fmt.Sprintf("%x", hash)\<close> for a byte array: two lower-case hexadecimal digits for each
  byte. The digest type \<open>[32]byte\<close> is an array of exactly 32 bytes, read here at the
  indices \<open>0..31\<close>; \<open>sha256.Sum256\<close> itself is a parameter.
\<close>

definition hexdigit :: "nat \<Rightarrow> char" where
  "hexdigit n = ''0123456789abcdef'' ! (n mod 16)"

definition hex_byte :: "char \<Rightarrow> string" where
  "hex_byte b = [hexdigit (of_char b div 16), hexdigit (of_char b mod 16)]"

type_synonym digest32 = "nat \<Rightarrow> char"

definition Sprintf_x32 :: "digest32 \<Rightarrow> string" where
  "Sprintf_x32 hash = concat (map (\<lambda>i. hex_byte (hash i)) [0..<32])"

definition ComputeCCBProjectID :: "(string \<Rightarrow> digest32) \<Rightarrow> Env \<Rightarrow> string \<Rightarrow> string" where
  "ComputeCCBProjectID Sum256 env workDir =
     (let abs = (case Abs env workDir of
                   Some a \<Rightarrow> a
                 | None \<Rightarrow> (case cwd env of Some wd \<Rightarrow> wd | None \<Rightarrow> []));
          base = findCCBConfigRoot env abs;
          base = (if base = [] then abs else base);
          norm = NormalizeWorkDir env base;
          norm = (if norm = [] then NormalizeWorkDir env abs else norm)
      in Sprintf_x32 (Sum256 norm))"

section \<open>Pane registry\<close>

record PaneEntry =
  PaneID :: string
  SessionID :: string
  ClaudePane :: string
  PaneTitleMarker :: string
  SessionPath :: string
  WorkDir :: string
  Terminal :: string
  UpdatedAt :: int

text \<open>
  The nested Go map \<open>provider \<rightarrow> projectID \<rightarrow> entry\<close> is a list of pairs; the order of
  the list is the order in which a \<open>range\<close> loop visits the map, which Go leaves open.
  Whatever is proved for every list holds for every order of visit.
\<close>

type_synonym provMap = "(string \<times> PaneEntry) list"
type_synonym providers = "(string \<times> provMap) list"

record PaneRegistry =
  Providers :: providers
  Version :: int
  Legacy :: "(string \<times> string) list"

definition registryTTL :: int where
  "registryTTL = 7 * 24 * 3600 * 1000000000"

text \<open>
  \<open>time.Now().Add(-ttl).Unix()\<close>: the clock reads \<open>now\<close> nanoseconds since the epoch, a
  \<open>time.Duration\<close> counts nanoseconds in an \<open>int64\<close>, \<open>Unix\<close> rounds down to seconds.
\<close>

definition cutoff_of :: "int \<Rightarrow> int \<Rightarrow> int" where
  "cutoff_of now ttl = (now + int64 (- ttl)) div 1000000000"

text \<open>The inner loop of \<open>PruneStalePanes\<close> over one provider's map.\<close>

fun prune_provMap :: "int \<Rightarrow> provMap \<Rightarrow> provMap \<times> int" where
  "prune_provMap cutoff [] = ([], 0)"
| "prune_provMap cutoff ((projectID, entry) # rest) =
     (let (kept, removed) = prune_provMap cutoff rest
      in if UpdatedAt entry > 0 \<and> UpdatedAt entry < cutoff then (kept, removed + 1)
         else ((projectID, entry) # kept, removed))"

text \<open>The outer loop: a provider whose map becomes empty is deleted.\<close>

fun prune_providers :: "int \<Rightarrow> providers \<Rightarrow> providers \<times> int" where
  "prune_providers cutoff [] = ([], 0)"
| "prune_providers cutoff ((provider, pm) # rest) =
     (let (pm', k) = prune_provMap cutoff pm;
          (rest', removed) = prune_providers cutoff rest
      in if length pm' = 0 then (rest', k + removed)
         else ((provider, pm') # rest', k + removed))"

text \<open>
  \<open>PruneStalePanes\<close> returns the count, the registry as the call leaves it, and whether
  the registry was saved to disk.
\<close>

definition PruneStalePanes :: "int \<Rightarrow> int \<Rightarrow> PaneRegistry \<Rightarrow> int \<times> PaneRegistry \<times> bool" where
  "PruneStalePanes now ttl r =
     (let ttl = (if ttl = 0 then registryTTL else ttl);
          cutoff = cutoff_of now ttl;
          (ps, removed) = prune_providers cutoff (Providers r)
      in (removed, r\<lparr>Providers := ps\<rparr>, removed > 0))"

text \<open>All entries of the registry with their two keys.\<close>

definition entries_of :: "providers \<Rightarrow> (string \<times> string \<times> PaneEntry) list" where
  "entries_of ps = concat (map (\<lambda>(provider, pm). map (\<lambda>(projectID, e). (provider, projectID, e)) pm) ps)"

text \<open>The test of the inner loop of \<open>PruneStalePanes\<close>, on an entry with its two keys.\<close>

definition is_stale :: "int \<Rightarrow> string \<times> string \<times> PaneEntry \<Rightarrow> bool" where
  "is_stale cutoff = (\<lambda>(provider, projectID, e). UpdatedAt e > 0 \<and> UpdatedAt e < cutoff)"

definition GetEntry :: "PaneRegistry \<Rightarrow> string \<Rightarrow> string \<Rightarrow> PaneEntry option" where
  "GetEntry r provider projectID =
     (case map_of (Providers r) provider of
        Some pm \<Rightarrow> map_of pm projectID
      | None \<Rightarrow> None)"

definition GetByProvider :: "PaneRegistry \<Rightarrow> string \<Rightarrow> provMap" where
  "GetByProvider r provider =
     (case map_of (Providers r) provider of Some pm \<Rightarrow> pm | None \<Rightarrow> [])"

text \<open>
  \<open>GetBySessionID\<close> and \<open>GetByClaudePane\<close>: the first entry, in the order of visit, that
  satisfies the test, with its provider.
\<close>

fun find_entry :: "(PaneEntry \<Rightarrow> bool) \<Rightarrow> providers \<Rightarrow> (string \<times> PaneEntry) option" where
  "find_entry P [] = None"
| "find_entry P ((provider, pm) # rest) =
     (case find (\<lambda>(k, e). P e) pm of
        Some (k, e) \<Rightarrow> Some (provider, e)
      | None \<Rightarrow> find_entry P rest)"

definition GetBySessionID :: "PaneRegistry \<Rightarrow> string \<Rightarrow> (string \<times> PaneEntry) option" where
  "GetBySessionID r sessionID = find_entry (\<lambda>e. SessionID e = sessionID) (Providers r)"

definition GetByClaudePane :: "PaneRegistry \<Rightarrow> string \<Rightarrow> (string \<times> PaneEntry) option" where
  "GetByClaudePane r claudePane = find_entry (\<lambda>e. ClaudePane e = claudePane) (Providers r)"

section \<open>Session resolver\<close>

record ResolvedSession =
  rs_SessionID :: string
  rs_ProjectKey :: string
  rs_LogFile :: string
  rs_PaneID :: string
  Source :: string

record ClaudeSessionInfo =
  ci_SessionID :: string
  ci_ProjectKey :: string
  ci_LogFile :: string

datatype resolve_error = HomeDirError | ReadDirError

text \<open>
  The resolver holds a registry and a backend, either of which may be \<open>nil\<close>; of the
  backend only \<open>IsAlive\<close> is used. The scan of \<open>~/.claude/projects\<close> by
  \<open>ResolveClaudeSession\<close> is part of the surroundings: \<open>claude_scan\<close> is what it returns
  for a work directory.
\<close>

record SessionResolver =
  registry :: "PaneRegistry option"
  backend :: "(string \<Rightarrow> bool) option"
  claude_scan :: "string \<Rightarrow> resolve_error + ClaudeSessionInfo option"

definition empty_session :: ResolvedSession where
  "empty_session =
     \<lparr>rs_SessionID = [], rs_ProjectKey = [], rs_LogFile = [], rs_PaneID = [], Source = []\<rparr>"

definition resolveFromEnv :: "SessionResolver \<Rightarrow> Env \<Rightarrow> ResolvedSession option" where
  "resolveFromEnv r env =
     (let sessionID = TrimSpace (getenv env ''CCB_SESSION_ID'')
      in if sessionID = [] then None
         else
           (case registry r of
              None \<Rightarrow> Some (empty_session\<lparr>rs_SessionID := sessionID, Source := ''env''\<rparr>)
            | Some reg \<Rightarrow>
                (case GetBySessionID reg sessionID of
                   Some (provider, entry) \<Rightarrow>
                     Some \<lparr>rs_SessionID = sessionID, rs_ProjectKey = provider,
                           rs_LogFile = SessionPath entry, rs_PaneID = PaneID entry,
                           Source = ''env''\<rparr>
                 | None \<Rightarrow> Some (empty_session\<lparr>rs_SessionID := sessionID, Source := ''env''\<rparr>))))"

definition pane_dead :: "SessionResolver \<Rightarrow> string \<Rightarrow> bool" where
  "pane_dead r paneID = (case backend r of None \<Rightarrow> False | Some isAlive \<Rightarrow> \<not> isAlive paneID)"

definition resolveFromRegistryByProject :: "SessionResolver \<Rightarrow> string \<Rightarrow> ResolvedSession option" where
  "resolveFromRegistryByProject r projectID =
     (case registry r of
        None \<Rightarrow> None
      | Some reg \<Rightarrow>
          (case GetEntry reg ''claude'' projectID of
             None \<Rightarrow> None
           | Some entry \<Rightarrow>
               if PaneID entry = [] then None
               else if pane_dead r (PaneID entry) then None
               else Some \<lparr>rs_SessionID = SessionID entry, rs_ProjectKey = projectID,
                          rs_LogFile = SessionPath entry, rs_PaneID = PaneID entry,
                          Source = ''registry_project''\<rparr>))"

text \<open>The loop of \<open>resolveFromRegistryUnfiltered\<close>; its state is the best entry so far.\<close>

fun best_alive ::
  "SessionResolver \<Rightarrow> provMap \<Rightarrow> (string \<times> PaneEntry) option \<Rightarrow> int
     \<Rightarrow> (string \<times> PaneEntry) option" where
  "best_alive r [] best bestTime = best"
| "best_alive r ((k, entry) # rest) best bestTime =
     (if PaneID entry = [] then best_alive r rest best bestTime
      else if pane_dead r (PaneID entry) then best_alive r rest best bestTime
      else if UpdatedAt entry > bestTime
        then best_alive r rest (Some (k, entry)) (UpdatedAt entry)
      else best_alive r rest best bestTime)"

definition resolveFromRegistryUnfiltered :: "SessionResolver \<Rightarrow> ResolvedSession option" where
  "resolveFromRegistryUnfiltered r =
     (case registry r of
        None \<Rightarrow> None
      | Some reg \<Rightarrow>
          let entries = GetByProvider reg ''claude''
          in if length entries = 0 then None
             else
               (case best_alive r entries None 0 of
                  None \<Rightarrow> None
                | Some (bestKey, bestEntry) \<Rightarrow>
                    Some \<lparr>rs_SessionID = SessionID bestEntry, rs_ProjectKey = bestKey,
                          rs_LogFile = SessionPath bestEntry, rs_PaneID = PaneID bestEntry,
                          Source = ''registry_unfiltered''\<rparr>))"

definition CCBProjectConfigDirname :: string where
  "CCBProjectConfigDirname = ''.ccb_config''"

definition FindProjectSessionFile :: "Env \<Rightarrow> string \<Rightarrow> string \<Rightarrow> string" where
  "FindProjectSessionFile env workDir sessionFilename =
     (let abs = (case Abs env workDir of Some a \<Rightarrow> a | None \<Rightarrow> workDir);
          candidate = JoinPath [abs, CCBProjectConfigDirname, sessionFilename];
          legacy = JoinPath [abs, sessionFilename]
      in if exists_path env candidate then candidate
         else if exists_path env legacy then legacy
         else [])"

definition ReadSessionFile :: "Env \<Rightarrow> string \<Rightarrow> string" where
  "ReadSessionFile env path =
     (case read_file env path of None \<Rightarrow> [] | Some data \<Rightarrow> TrimSpace data)"

definition resolveFromSessionFile :: "Env \<Rightarrow> string \<Rightarrow> ResolvedSession option" where
  "resolveFromSessionFile env workDir =
     (let sessionFile = FindProjectSessionFile env workDir ''.claude-session''
      in if sessionFile = [] then None
         else
           let content = ReadSessionFile env sessionFile
           in if content = [] then None
              else Some (empty_session\<lparr>rs_PaneID := content, Source := ''session_file''\<rparr>))"

definition resolveFromRegistryByPane :: "SessionResolver \<Rightarrow> Env \<Rightarrow> ResolvedSession option" where
  "resolveFromRegistryByPane r env =
     (case registry r of
        None \<Rightarrow> None
      | Some reg \<Rightarrow>
          let currentPane = TrimSpace (getenv env ''TMUX_PANE'');
              currentPane = (if currentPane = [] then TrimSpace (getenv env ''WEZTERM_PANE'')
                             else currentPane)
          in if currentPane = [] then None
             else
               (case GetByClaudePane reg currentPane of
                  None \<Rightarrow> None
                | Some (provider, entry) \<Rightarrow>
                    Some \<lparr>rs_SessionID = SessionID entry, rs_ProjectKey = provider,
                          rs_LogFile = SessionPath entry, rs_PaneID = PaneID entry,
                          Source = ''registry_pane''\<rparr>))"

definition resolveBestFallback ::
  "SessionResolver \<Rightarrow> string \<Rightarrow> resolve_error + ResolvedSession option" where
  "resolveBestFallback r workDir =
     (case claude_scan r workDir of
        Inl err \<Rightarrow> Inl err
      | Inr None \<Rightarrow> Inr None
      | Inr (Some info) \<Rightarrow>
          Inr (Some \<lparr>rs_SessionID = ci_SessionID info, rs_ProjectKey = ci_ProjectKey info,
                     rs_LogFile = ci_LogFile info, rs_PaneID = [], Source = ''fallback''\<rparr>))"

definition Resolve ::
  "(string \<Rightarrow> digest32) \<Rightarrow> SessionResolver \<Rightarrow> Env \<Rightarrow> string
     \<Rightarrow> resolve_error + ResolvedSession option" where
  "Resolve Sum256 r env workDir =
     (case resolveFromEnv r env of
        Some result \<Rightarrow> Inr (Some result)
      | None \<Rightarrow>
          let projectID = ComputeCCBProjectID Sum256 env workDir
          in (case resolveFromRegistryByProject r projectID of
                Some result \<Rightarrow> Inr (Some result)
              | None \<Rightarrow>
                  (case resolveFromRegistryUnfiltered r of
                     Some result \<Rightarrow> Inr (Some result)
                   | None \<Rightarrow>
                       (case resolveFromSessionFile env workDir of
                          Some result \<Rightarrow> Inr (Some result)
                        | None \<Rightarrow>
                            (case resolveFromRegistryByPane r env of
                               Some result \<Rightarrow> Inr (Some result)
                             | None \<Rightarrow> resolveBestFallback r workDir)))))"

text \<open>
  The six stages as a table: the name each stage writes into \<open>Source\<close>, and what each
  stage returns when it is run on its own.
\<close>

definition stage_names :: "string list" where
  "stage_names = [''env'', ''registry_project'', ''registry_unfiltered'', ''session_file'',
                  ''registry_pane'', ''fallback'']"

definition stage_results ::
  "(string \<Rightarrow> digest32) \<Rightarrow> SessionResolver \<Rightarrow> Env \<Rightarrow> string
     \<Rightarrow> (resolve_error + ResolvedSession option) list" where
  "stage_results Sum256 r env workDir =
     [Inr (resolveFromEnv r env),
      Inr (resolveFromRegistryByProject r (ComputeCCBProjectID Sum256 env workDir)),
      Inr (resolveFromRegistryUnfiltered r),
      Inr (resolveFromSessionFile env workDir),
      Inr (resolveFromRegistryByPane r env),
      resolveBestFallback r workDir]"

section \<open>Daemon server\<close>

text \<open>
  A decoded JSON value (\<open>interface{}\<close>); a request is a decoded object,
  \<open>map[string]interface{}\<close>. The code modelled here reads strings only.
\<close>

datatype json =
  JNull | JBool bool | JNumber int | JString string | JArray "json list"
  | JObject "(string \<times> json) list"

type_synonym request = "string \<rightharpoonup> json"

record ServerConfig =
  cfg_Host :: string
  cfg_Port :: int
  cfg_Token :: string
  cfg_StateFile :: string
  cfg_LogFile :: string
  cfg_IdleTimeout :: int
  cfg_ParentPID :: int

text \<open>
  The server's fields. \<open>listener_open\<close> stands for the listener (set and not yet closed),
  \<open>shutdown_closed\<close> for the channel \<open>shutdown\<close>, \<open>pool_running\<close> for the worker pool. Times
  are nanoseconds since the epoch.
\<close>

record Server =
  token :: string
  lastActive :: int
  idleTimeout :: int
  stateFile :: string
  logFile :: string
  parentPID :: int
  listener_open :: bool
  shutdown_closed :: bool
  pool_running :: bool

text \<open>
  \<open>RandomToken\<close>: \<open>rand.Read\<close> fills 16 bytes or fails; on failure the token is the clock
  reading in hexadecimal (\<open>%x\<close> of an \<open>int64\<close>, with a minus sign for a negative value).
\<close>

function hex_nat :: "nat \<Rightarrow> string" where
  "hex_nat n = (if n < 16 then [hexdigit n] else hex_nat (n div 16) @ [hexdigit (n mod 16)])"
  by pat_completeness auto

termination hex_nat
  by (relation "measure id") auto

definition hex_int :: "int \<Rightarrow> string" where
  "hex_int i = (if i < 0 then ''-'' @ hex_nat (nat (- i)) else hex_nat (nat i))"

definition RandomToken :: "(nat \<Rightarrow> char) option \<Rightarrow> int \<Rightarrow> string" where
  "RandomToken rand_read unixNano =
     (case rand_read of
        None \<Rightarrow> hex_int unixNano
      | Some b \<Rightarrow> concat (map (\<lambda>i. hex_byte (b i)) [0..<16]))"

definition NewServer :: "ServerConfig \<Rightarrow> (nat \<Rightarrow> char) option \<Rightarrow> int \<Rightarrow> Server" where
  "NewServer cfg rand_read now =
     (let cfg = (if cfg_Host cfg = [] then cfg\<lparr>cfg_Host := ''127.0.0.1''\<rparr> else cfg);
          cfg = (if cfg_IdleTimeout cfg = 0
                 then cfg\<lparr>cfg_IdleTimeout := 30 * 60 * 1000000000\<rparr> else cfg);
          cfg = (if cfg_Token cfg = [] then cfg\<lparr>cfg_Token := RandomToken rand_read now\<rparr>
                 else cfg)
      in \<lparr>token = cfg_Token cfg, lastActive = now, idleTimeout = cfg_IdleTimeout cfg,
          stateFile = cfg_StateFile cfg, logFile = cfg_LogFile cfg,
          parentPID = cfg_ParentPID cfg, listener_open = False, shutdown_closed = False,
          pool_running = True\<rparr>)"

text \<open>
  What \<open>handleConn\<close> does to the connection and the server, in order. The five method
  handlers are not unfolded: \<open>Dispatch h\<close> is the call of handler \<open>h\<close>.
\<close>

datatype handler = HandlePing | HandleShutdown | HandleStatus | HandleRequest | HandlePend

datatype effect =
  SetDeadline | SendJSON "(string \<times> json) list" | TouchActivity | Dispatch handler
  | CloseConn

definition getStr :: "request \<Rightarrow> string \<Rightarrow> string" where
  "getStr m k = (case m k of Some (JString v) \<Rightarrow> v | _ \<Rightarrow> [])"

definition sendError :: "string \<Rightarrow> effect" where
  "sendError msg = SendJSON [(''status'', JString ''error''), (''error'', JString msg)]"

definition touchActivity :: "Server \<Rightarrow> int \<Rightarrow> Server" where
  "touchActivity s now = s\<lparr>lastActive := now\<rparr>"

text \<open>
  \<open>handleConn\<close> on what the decoder returns: \<open>None\<close> when the bytes are not a JSON
  object. \<open>conn.Close\<close> is deferred, so it is the last effect on every path.
\<close>

definition handleConn :: "Server \<Rightarrow> int \<Rightarrow> request option \<Rightarrow> Server \<times> effect list" where
  "handleConn s now decoded =
     (case decoded of
        None \<Rightarrow> (s, [SetDeadline, sendError ''invalid request'', CloseConn])
      | Some req \<Rightarrow>
          let tok = getStr req ''token''
          in if tok \<noteq> token s then (s, [SetDeadline, sendError ''invalid token'', CloseConn])
             else
               let s' = touchActivity s now;
                   method = getStr req ''method'';
                   act =
                     (if method = ''ping'' \<or> method = ''.ping'' then Dispatch HandlePing
                      else if method = ''shutdown'' \<or> method = ''.shutdown''
                        then Dispatch HandleShutdown
                      else if method = ''status'' \<or> method = ''.status''
                        then Dispatch HandleStatus
                      else if method = ''request'' \<or> method = ''.request'' \<or> method = ''ask''
                        then Dispatch HandleRequest
                      else if method = ''pend'' \<or> method = ''.pend'' then Dispatch HandlePend
                      else sendError (''unknown method: '' @ method))
               in (s', [SetDeadline, TouchActivity, act, CloseConn]))"

text \<open>
  \<open>Shutdown\<close>: closing the channel \<open>shutdown\<close> a second time panics; otherwise the listener
  is closed, the pool is shut down and the state file is removed.
\<close>

datatype panic = CloseOfClosedChannel

definition removeState :: "Server \<Rightarrow> filesystem \<Rightarrow> filesystem" where
  "removeState s fs = (if stateFile s \<noteq> [] then fs(stateFile s := None) else fs)"

definition Shutdown :: "Server \<Rightarrow> filesystem \<Rightarrow> panic + Server \<times> filesystem" where
  "Shutdown s fs =
     (if shutdown_closed s then Inl CloseOfClosedChannel
      else Inr (s\<lparr>shutdown_closed := True, listener_open := False, pool_running := False\<rparr>,
                removeState s fs))"

text \<open>
  \<open>os.FindProcess\<close>, as the Go library documents it and as the comments of the code
  repeat: on Unix it succeeds for every pid, whether or not the process exists; on
  Windows it fails when the process cannot be opened.
\<close>

datatype platform = Unix | Windows

definition FindProcess_err :: "platform \<Rightarrow> (int \<Rightarrow> bool) \<Rightarrow> int \<Rightarrow> bool" where
  "FindProcess_err os alive pid = (case os of Unix \<Rightarrow> False | Windows \<Rightarrow> \<not> alive pid)"

text \<open>
  One tick of the ticker in \<open>parentMonitor\<close> (the monitor runs only when \<open>parentPID > 0\<close>):
  \<open>Stop\<close> when the monitor returns after the shutdown, \<open>Again\<close> when it goes on to wait
  for the next tick.
\<close>

datatype monitor = Again | Stop

definition parentMonitor_tick ::
  "platform \<Rightarrow> (int \<Rightarrow> bool) \<Rightarrow> Server \<Rightarrow> filesystem
     \<Rightarrow> panic + monitor \<times> Server \<times> filesystem" where
  "parentMonitor_tick os alive s fs =
     (if FindProcess_err os alive (parentPID s) then
        (case Shutdown s fs of
           Inl p \<Rightarrow> Inl p
         | Inr (s', fs') \<Rightarrow> Inr (Stop, s', fs'))
      else Inr (Again, s, fs))"

text \<open>
  \<open>isPIDAlive\<close> of package \<open>lock\<close>, which asks the same question: after \<open>FindProcess\<close> it
  probes the process (\<open>checkProcessAlive\<close>: signal 0 on Unix).
\<close>

definition isPIDAlive :: "platform \<Rightarrow> (int \<Rightarrow> bool) \<Rightarrow> int \<Rightarrow> bool" where
  "isPIDAlive os alive pid =
     (if pid \<le> 0 then False
      else if FindProcess_err os alive pid then False
      else alive pid)"

section \<open>Example data\<close>

definition old_entry :: PaneEntry where
  "old_entry = \<lparr>PaneID = ''%10'', SessionID = [], ClaudePane = [], PaneTitleMarker = [],
                 SessionPath = [], WorkDir = [], Terminal = ''tmux'', UpdatedAt = 1700000000\<rparr>"

definition unstamped_entry :: PaneEntry where
  "unstamped_entry = old_entry\<lparr>PaneID := ''%20'', UpdatedAt := 0\<rparr>"

definition fresh_entry :: PaneEntry where
  "fresh_entry = old_entry\<lparr>PaneID := ''%30'', UpdatedAt := 1999999000\<rparr>"

definition example_registry :: PaneRegistry where
  "example_registry =
     \<lparr>Providers = [(''codex'', [(''abc'', old_entry)]),
                    (''gemini'', [(''abc'', unstamped_entry), (''def'', fresh_entry)])],
      Version = 2, Legacy = []\<rparr>"

text \<open>The clock of the examples: 2 000 000 000 seconds after the epoch.\<close>

definition example_now :: int where
  "example_now = 2000000000 * 1000000000"

definition example_config :: ServerConfig where
  "example_config =
     \<lparr>cfg_Host = [], cfg_Port = 0, cfg_Token = [], cfg_StateFile = ''/run/ccb/askd.json'',
      cfg_LogFile = [], cfg_IdleTimeout = 0, cfg_ParentPID = 4242\<rparr>"

definition example_server :: Server where
  "example_server = NewServer example_config (Some (\<lambda>i. CHR 0x2A)) example_now"

definition example_request :: request where
  "example_request = [''method'' \<mapsto> JString ''status'']"

definition zero_digest :: "string \<Rightarrow> digest32" where
  "zero_digest s = (\<lambda>i. CHR 0x00)"

definition claude_entry :: PaneEntry where
  "claude_entry = \<lparr>PaneID = [], SessionID = ''s-1'', ClaudePane = ''%1'', PaneTitleMarker = [],
                    SessionPath = ''/logs/s-1.jsonl'', WorkDir = ''/w'', Terminal = ''tmux'',
                    UpdatedAt = 1999999000\<rparr>"

definition example_resolver :: SessionResolver where
  "example_resolver =
     \<lparr>registry = Some \<lparr>Providers = [(''claude'', [(''p1'', claude_entry)])], Version = 2,
                        Legacy = []\<rparr>,
      backend = None,
      claude_scan = (\<lambda>workDir. Inr (Some \<lparr>ci_SessionID = ''s-9'', ci_ProjectKey = ''-w'',
                                              ci_LogFile = ''/home/u/.claude/projects/-w/s-9.jsonl''\<rparr>))\<rparr>"

definition example_env :: Env where
  "example_env =
     \<lparr>getenv = (\<lambda>name. if name = ''TMUX_PANE'' then ''%1'' else []),
      env_is_set = (\<lambda>name. name = ''TMUX_PANE''),
      home = Some ''/home/u'', cwd = Some ''/w'', GOOS = ''linux'',
      exists_path = (\<lambda>path. path = ''/w/.ccb_config/.claude-session''),
      is_dir = (\<lambda>path. False),
      read_file = [''/w/.ccb_config/.claude-session'' \<mapsto> ''%42'' @ [LF]]\<rparr>"

section \<open>The language of a pattern\<close>

text \<open>
  What a pattern denotes: the set of the strings it matches. The matcher \<open>rx_match\<close> is
  shown below to decide membership in this set, which is what the proofs about the
  protocol patterns use.
\<close>

definition conc :: "string set \<Rightarrow> string set \<Rightarrow> string set" where
  "conc A B = {a @ b | a b. a \<in> A \<and> b \<in> B}"

inductive_set star :: "string set \<Rightarrow> string set" for A :: "string set" where
  star_empty: "[] \<in> star A"
| star_more: "a \<in> A \<Longrightarrow> w \<in> star A \<Longrightarrow> a @ w \<in> star A"

primrec lang :: "rx \<Rightarrow> string set" where
  "lang Zero = {}"
| "lang One = {[]}"
| "lang (Atom P) = {[c] | c. P c}"
| "lang (Alt r s) = lang r \<union> lang s"
| "lang (Seq r s) = conc (lang r) (lang s)"
| "lang (Star r) = star (lang r)"

section \<open>Properties of the string functions\<close>

lemma Split_nonempty [simp]: "Split sep s \<noteq> []"
  by (induction s) (auto split: list.splits)

lemma Split_Cons:
  "Split sep (c # cs) =
     (if c = sep then [] # Split sep cs
      else (c # hd (Split sep cs)) # tl (Split sep cs))"
  by (cases "Split sep cs") simp_all

lemma Split_no_sep: "p \<in> set (Split sep s) \<Longrightarrow> sep \<notin> set p"
proof (induction s arbitrary: p)
  case Nil
  then show ?case by simp
next
  case (Cons c cs)
  obtain q qs where S: "Split sep cs = q # qs"
    by (cases "Split sep cs") simp_all
  show ?case
  proof (cases "c = sep")
    case True
    with Cons show ?thesis by auto
  next
    case False
    with Cons.prems S have "p = c # q \<or> p \<in> set qs" by simp
    then show ?thesis
    proof
      assume "p = c # q"
      moreover have "sep \<notin> set q" using Cons.IH [of q] S by simp
      ultimately show ?thesis using False by auto
    next
      assume "p \<in> set qs"
      then show ?thesis using Cons.IH [of p] S by simp
    qed
  qed
qed

lemma Split_free: "sep \<notin> set u \<Longrightarrow> Split sep (u @ s) = (u @ hd (Split sep s)) # tl (Split sep s)"
  by (induction u) (auto simp: Split_Cons simp del: Split.simps(2))

lemma Split_free_only: "sep \<notin> set u \<Longrightarrow> Split sep u = [u]"
  using Split_free [of sep u "[]"] by simp

lemma Split_append:
  "Split sep (a @ b) =
     butlast (Split sep a) @ (last (Split sep a) @ hd (Split sep b)) # tl (Split sep b)"
proof (induction a)
  case Nil
  then show ?case by simp
next
  case (Cons c cs)
  obtain q qs where S: "Split sep cs = q # qs"
    by (cases "Split sep cs") simp_all
  show ?case
  proof (cases "c = sep")
    case True
    with Cons S show ?thesis by simp
  next
    case False
    with Cons S show ?thesis by (cases qs) simp_all
  qed
qed

lemma Split_rebuild:
  "concat (map (\<lambda>l. l @ [sep]) (butlast (Split sep s))) @ last (Split sep s) = s"
proof (induction s)
  case Nil
  then show ?case by simp
next
  case (Cons c cs)
  obtain q qs where S: "Split sep cs = q # qs"
    by (cases "Split sep cs") simp_all
  show ?case
  proof (cases "c = sep")
    case True
    with Cons S show ?thesis by simp
  next
    case False
    with Cons S show ?thesis by (cases qs) simp_all
  qed
qed

lemma last_Split_no_sep: "sep \<notin> set (last (Split sep s))"
  by (rule Split_no_sep [of _ sep s]) simp

section \<open>The carry buffer of \<open>ReadNew\<close>\<close>

text \<open>
  One call of \<open>ReadNew\<close> on a reader that has consumed the prefix \<open>a\<close> of the file and
  holds the unterminated rest of \<open>a\<close> in its carry, after \<open>b\<close> has been appended.
\<close>

lemma ReadNew_step:
  assumes fl: "fs (FilePath r) = Some (a @ b)"
    and off: "offset r = int (length a)"
    and car: "carry r = last (Split LF a)"
  shows "ReadNew fs r =
           (Inr (map (\<lambda>p. TrimRight p [CR]) (butlast (Split LF (carry r @ b)))),
            r\<lparr>offset := int (length (a @ b)), carry := last (Split LF (a @ b))\<rparr>)"
proof (cases "b = []")
  case True
  have "Split LF (carry r) = [carry r]"
    unfolding car by (rule Split_free_only) (rule last_Split_no_sep)
  with True fl off car show ?thesis
    by (simp add: ReadNew_def Let_def)
next
  case False
  let ?u = "last (Split LF a)"
  have free: "LF \<notin> set ?u" by (rule last_Split_no_sep)
  have last_eq: "last (Split LF (?u @ b)) = last (Split LF (a @ b))"
    by (simp add: Split_append [of LF a b] Split_free [OF free])
  from False fl off car last_eq show ?thesis
    by (simp add: ReadNew_def Let_def)
qed

text \<open>
  C3. A text reaches the log file in two pieces \<open>a\<close> and \<open>b\<close> (the cut may fall anywhere,
  also inside a line), with one \<open>ReadNew\<close> after each piece. Both calls succeed; their
  results, one after the other, are the newline-terminated lines of \<open>a @ b\<close> in order, each
  once, stripped of trailing carriage returns; the unterminated rest of the text is the
  carry. After the first call the carry is the unterminated rest of \<open>a\<close>, which the
  second call returns as part of its first line once \<open>b\<close> brings the newline.
\<close>

theorem ReadNew_two_pieces:
  assumes "fs1 p = Some a" and "fs2 p = Some (a @ b)"
    and "ReadNew fs1 (NewLogReader p) = (res1, r1)"
    and "ReadNew fs2 r1 = (res2, r2)"
  shows "\<exists>l1 l2.
           res1 = Inr l1 \<and> res2 = Inr l2 \<and>
           l1 @ l2 = map (\<lambda>p. TrimRight p [CR]) (butlast (Split LF (a @ b))) \<and>
           concat (map (\<lambda>l. l @ [LF]) (butlast (Split LF (a @ b)))) @ carry r2 = a @ b \<and>
           LF \<notin> set (carry r2) \<and>
           (\<forall>l \<in> set (butlast (Split LF (a @ b))). LF \<notin> set l) \<and>
           carry r1 = last (Split LF a) \<and>
           l2 = map (\<lambda>p. TrimRight p [CR]) (butlast (Split LF (carry r1 @ b))) \<and>
           offset r2 = int (length (a @ b))"
proof -
  let ?trim = "\<lambda>p. TrimRight p [CR]"
  let ?r0 = "NewLogReader p"
  have first: "ReadNew fs1 ?r0 =
      (Inr (map ?trim (butlast (Split LF (carry ?r0 @ a)))),
       ?r0\<lparr>offset := int (length ([] @ a)), carry := last (Split LF ([] @ a))\<rparr>)"
    by (rule ReadNew_step) (simp_all add: NewLogReader_def assms(1))
  then have res1: "res1 = Inr (map ?trim (butlast (Split LF a)))"
    and r1: "r1 = ?r0\<lparr>offset := int (length a), carry := last (Split LF a)\<rparr>"
    using assms(3) by (simp_all add: NewLogReader_def)
  have second: "ReadNew fs2 r1 =
      (Inr (map ?trim (butlast (Split LF (carry r1 @ b)))),
       r1\<lparr>offset := int (length (a @ b)), carry := last (Split LF (a @ b))\<rparr>)"
    by (rule ReadNew_step) (simp_all add: r1 NewLogReader_def assms(2))
  then have res2: "res2 = Inr (map ?trim (butlast (Split LF (carry r1 @ b))))"
    and r2: "r2 = r1\<lparr>offset := int (length (a @ b)), carry := last (Split LF (a @ b))\<rparr>"
    using assms(4) by simp_all
  have c1: "carry r1 = last (Split LF a)" by (simp add: r1)
  have free: "LF \<notin> set (last (Split LF a))" by (rule last_Split_no_sep)
  have joined: "butlast (Split LF a) @ butlast (Split LF (carry r1 @ b))
      = butlast (Split LF (a @ b))"
    by (simp add: c1 Split_append [of LF a b] Split_free [OF free] butlast_append)
  have lines: "map ?trim (butlast (Split LF a)) @ map ?trim (butlast (Split LF (carry r1 @ b)))
      = map ?trim (butlast (Split LF (a @ b)))"
    by (simp flip: joined)
  have parts: "\<forall>l \<in> set (butlast (Split LF (a @ b))). LF \<notin> set l"
    by (meson Split_no_sep in_set_butlastD)
  show ?thesis
    using res1 res2 lines parts c1
    by (simp add: r2 Split_rebuild last_Split_no_sep)
qed

theorem ReadNew_two_pieces_witness:
  "\<exists>l1 l2.
     fst (ReadNew [''log'' \<mapsto> ''line1\<newline>partial''] (NewLogReader ''log'')) = Inr l1 \<and>
     fst (ReadNew [''log'' \<mapsto> ''line1\<newline>partial'' @ ''_complete\<newline>line3\<newline>'']
            (snd (ReadNew [''log'' \<mapsto> ''line1\<newline>partial''] (NewLogReader ''log'')))) = Inr l2 \<and>
     l1 @ l2 = [''line1'', ''partial_complete'', ''line3'']"
proof -
  define a where "a = ''line1\<newline>partial''"
  define b where "b = ''_complete\<newline>line3\<newline>''"
  define fs1 :: filesystem where "fs1 = [''log'' \<mapsto> a]"
  define fs2 :: filesystem where "fs2 = [''log'' \<mapsto> a @ b]"
  define R1 where "R1 = ReadNew fs1 (NewLogReader ''log'')"
  define R2 where "R2 = ReadNew fs2 (snd R1)"
  have h1: "fs1 ''log'' = Some a" by (simp add: fs1_def)
  have h2: "fs2 ''log'' = Some (a @ b)" by (simp add: fs2_def)
  have h3: "ReadNew fs1 (NewLogReader ''log'') = (fst R1, snd R1)" by (simp add: R1_def)
  have h4: "ReadNew fs2 (snd R1) = (fst R2, snd R2)" by (simp add: R2_def)
  have ev: "map (\<lambda>p. TrimRight p [CR]) (butlast (Split LF (a @ b)))
      = [''line1'', ''partial_complete'', ''line3'']"
    by (simp add: TrimRight_def a_def b_def)
  from ReadNew_two_pieces [OF h1 h2 h3 h4]
  obtain l1 l2 where "fst R1 = Inr l1" "fst R2 = Inr l2"
    "l1 @ l2 = map (\<lambda>p. TrimRight p [CR]) (butlast (Split LF (a @ b)))"
    by (elim exE conjE)
  then have "\<exists>l1 l2. fst R1 = Inr l1 \<and> fst R2 = Inr l2 \<and>
      l1 @ l2 = [''line1'', ''partial_complete'', ''line3'']"
    unfolding ev by (intro exI conjI)
  then show ?thesis
    unfolding R2_def R1_def fs1_def fs2_def a_def b_def .
qed

section \<open>Properties of the patterns\<close>

lemma concI: "a \<in> A \<Longrightarrow> b \<in> B \<Longrightarrow> a @ b \<in> conc A B"
  by (auto simp: conc_def)

lemma concE: "w \<in> conc A B \<Longrightarrow> (\<And>a b. w = a @ b \<Longrightarrow> a \<in> A \<Longrightarrow> b \<in> B \<Longrightarrow> thesis) \<Longrightarrow> thesis"
  by (auto simp: conc_def)

lemma conc_unit [simp]: "conc A {[]} = A" "conc {[]} A = A"
  by (auto simp: conc_def)

lemma Nil_in_conc: "[] \<in> conc A B \<longleftrightarrow> [] \<in> A \<and> [] \<in> B"
  by (auto simp: conc_def)

lemma Cons_in_conc:
  "c # w \<in> conc A B \<longleftrightarrow>
     (\<exists>a b. w = a @ b \<and> c # a \<in> A \<and> b \<in> B) \<or> ([] \<in> A \<and> c # w \<in> B)"
proof
  assume "c # w \<in> conc A B"
  then obtain a b where ab: "c # w = a @ b" "a \<in> A" "b \<in> B" by (rule concE)
  show "(\<exists>a b. w = a @ b \<and> c # a \<in> A \<and> b \<in> B) \<or> ([] \<in> A \<and> c # w \<in> B)"
  proof (cases a)
    case Nil
    with ab show ?thesis by simp
  next
    case (Cons d a')
    with ab have "w = a' @ b" "c # a' \<in> A" by simp_all
    with ab(3) show ?thesis by blast
  qed
next
  assume "(\<exists>a b. w = a @ b \<and> c # a \<in> A \<and> b \<in> B) \<or> ([] \<in> A \<and> c # w \<in> B)"
  then show "c # w \<in> conc A B"
  proof
    assume "\<exists>a b. w = a @ b \<and> c # a \<in> A \<and> b \<in> B"
    then obtain a b where "w = a @ b" "c # a \<in> A" "b \<in> B" by blast
    then show ?thesis using concI [of "c # a" A b B] by simp
  next
    assume "[] \<in> A \<and> c # w \<in> B"
    then show ?thesis using concI [of "[]" A "c # w" B] by simp
  qed
qed

lemma Cons_in_star:
  "c # w \<in> star A \<longleftrightarrow> (\<exists>a v. w = a @ v \<and> c # a \<in> A \<and> v \<in> star A)"
proof
  assume "c # w \<in> star A"
  then show "\<exists>a v. w = a @ v \<and> c # a \<in> A \<and> v \<in> star A"
  proof (induction "c # w" rule: star.induct)
    case (star_more a v)
    show ?case
    proof (cases a)
      case Nil
      with star_more show ?thesis by simp
    next
      case (Cons d a')
      with star_more.hyps(4) have "w = a' @ v" "d = c" by simp_all
      with star_more.hyps(1,2) Cons show ?thesis by blast
    qed
  qed
next
  assume "\<exists>a v. w = a @ v \<and> c # a \<in> A \<and> v \<in> star A"
  then obtain a v where "w = a @ v" "c # a \<in> A" "v \<in> star A" by blast
  then show "c # w \<in> star A" using star_more [of "c # a" A v] by simp
qed

lemma nullable_lang: "nullable r \<longleftrightarrow> [] \<in> lang r"
  by (induction r) (auto simp: Nil_in_conc intro: star_empty)

lemma in_conc: "w \<in> conc A B \<longleftrightarrow> (\<exists>a b. w = a @ b \<and> a \<in> A \<and> b \<in> B)"
  by (auto simp: conc_def)

lemma deriv_lang: "w \<in> lang (deriv c r) \<longleftrightarrow> c # w \<in> lang r"
proof (induction r arbitrary: w)
  case (Seq r s)
  have "w \<in> lang (deriv c (Seq r s)) \<longleftrightarrow>
      (\<exists>a b. w = a @ b \<and> c # a \<in> lang r \<and> b \<in> lang s) \<or> ([] \<in> lang r \<and> c # w \<in> lang s)"
    by (auto simp: in_conc nullable_lang Seq.IH)
  also have "\<dots> \<longleftrightarrow> c # w \<in> lang (Seq r s)"
    by (simp add: Cons_in_conc)
  finally show ?case .
next
  case (Star r)
  have "w \<in> lang (deriv c (Star r)) \<longleftrightarrow>
      (\<exists>a v. w = a @ v \<and> c # a \<in> lang r \<and> v \<in> star (lang r))"
    by (auto simp: in_conc Star.IH)
  also have "\<dots> \<longleftrightarrow> c # w \<in> lang (Star r)"
    by (simp add: Cons_in_star)
  finally show ?case .
qed auto

lemma rx_match_lang: "rx_match r w \<longleftrightarrow> w \<in> lang r"
  by (induction w arbitrary: r) (simp_all add: nullable_lang deriv_lang)


lemma conc_single: "conc {a} {b} = {a @ b}"
  by (auto simp: conc_def)

lemma lang_Lit: "lang (Lit s) = {s}"
proof (induction s)
  case Nil
  show ?case by (simp add: Lit_def)
next
  case (Cons c s)
  have atom: "{[d] | d. d = c} = {[c]}" by auto
  have "lang (Lit (c # s)) = conc {[c]} (lang (Lit s))"
    by (simp add: Lit_def atom)
  also have "\<dots> = {c # s}"
    unfolding Cons conc_single by simp
  finally show ?case .
qed

lemma lang_Opt: "lang (Opt r) = lang r \<union> {[]}"
  by (simp add: Opt_def)

lemma conc_assoc: "conc (conc A B) C = conc A (conc B C)"
proof (intro set_eqI iffI)
  fix w assume "w \<in> conc (conc A B) C"
  then obtain ab c where w: "w = ab @ c" "ab \<in> conc A B" "c \<in> C" by (rule concE)
  from w(2) obtain a b where ab: "ab = a @ b" "a \<in> A" "b \<in> B" by (rule concE)
  have "a @ (b @ c) \<in> conc A (conc B C)" by (rule concI [OF ab(2) concI [OF ab(3) w(3)]])
  with w ab show "w \<in> conc A (conc B C)" by simp
next
  fix w assume "w \<in> conc A (conc B C)"
  then obtain a bc where w: "w = a @ bc" "a \<in> A" "bc \<in> conc B C" by (rule concE)
  from w(3) obtain b c where bc: "bc = b @ c" "b \<in> B" "c \<in> C" by (rule concE)
  have "(a @ b) @ c \<in> conc (conc A B) C" by (rule concI [OF concI [OF w(2) bc(2)] bc(3)])
  with w bc show "w \<in> conc (conc A B) C" by simp
qed

lemma lang_Seqs_snoc: "lang (Seqs (rs @ [r])) = conc (lang (Seqs rs)) (lang r)"
  by (induction rs) (simp_all add: conc_assoc)

lemma star_Atom [simp]: "w \<in> star {[c] | c. P c} \<longleftrightarrow> list_all P w"
proof
  assume "w \<in> star {[c] | c. P c}"
  then show "list_all P w" by (induction rule: star.induct) auto
next
  assume "list_all P w"
  then show "w \<in> star {[c] | c. P c}"
  proof (induction w)
    case Nil
    show ?case by (rule star_empty)
  next
    case (Cons c w)
    then have "[c] \<in> {[c] | c. P c}" "w \<in> star {[c] | c. P c}" by simp_all
    then have "[c] @ w \<in> star {[c] | c. P c}" by (rule star_more)
    then show ?case by simp
  qed
qed

lemma lang_Star_AnyByte: "lang (Star AnyByte) = UNIV"
proof -
  have "w \<in> star {[c] | c. (\<lambda>_. True) c}" for w
    unfolding star_Atom by (simp add: list_all_iff)
  then show ?thesis by (auto simp: AnyByte_def)
qed

lemma rx_match_prefix_iff: "rx_match_prefix r s \<longleftrightarrow> (\<exists>a b. s = a @ b \<and> a \<in> lang r)"
proof -
  have "rx_match_prefix r s \<longleftrightarrow> s \<in> conc (lang r) UNIV"
    unfolding rx_match_prefix_def rx_match_lang lang.simps(5) lang_Star_AnyByte ..
  then show ?thesis by (simp add: in_conc)
qed

lemma rx_match_prefix_append: "rx_match_prefix r s \<Longrightarrow> rx_match_prefix r (s @ t)"
proof -
  assume "rx_match_prefix r s"
  then obtain a b where "s = a @ b" "a \<in> lang r" unfolding rx_match_prefix_iff by blast
  then have "s @ t = a @ (b @ t) \<and> a \<in> lang r" by simp
  then show ?thesis unfolding rx_match_prefix_iff by blast
qed

lemma Plus_Atom_ends: "w \<in> lang (Plus (Atom P)) \<Longrightarrow> w \<noteq> [] \<and> P (last w)"
  by (auto simp: Plus_def in_conc list_all_iff)

lemma TrimRight_Nil [simp]: "TrimRight [] cs = []"
  by (simp add: TrimRight_def)

lemma TrimRight_keep:
  assumes "m \<noteq> []" and "last m \<notin> set cs"
  shows "TrimRight (m @ w) cs = m @ TrimRight w cs"
proof -
  from assms obtain ys y where m: "m = ys @ [y]" "y \<notin> set cs"
    by (cases m rule: rev_cases) auto
  then have "dropWhile (\<lambda>c. c \<in> set cs) (rev m) = rev m" by simp
  then show ?thesis
    by (simp add: TrimRight_def dropWhile_append)
qed

lemma TrimRight_id: "s = [] \<or> last s \<notin> set cs \<Longrightarrow> TrimRight s cs = s"
proof (cases "s = []")
  case True
  then show ?thesis by simp
next
  case False
  assume "s = [] \<or> last s \<notin> set cs"
  with False show ?thesis using TrimRight_keep [of s cs "[]"] by simp
qed

lemma TrimRight_decomp: "\<exists>rest. TrimRight s cs @ rest = s \<and> set rest \<subseteq> set cs"
proof -
  let ?P = "\<lambda>c. c \<in> set cs"
  have "rev (takeWhile ?P (rev s) @ dropWhile ?P (rev s)) = rev (rev s)" by simp
  then have "rev (dropWhile ?P (rev s)) @ rev (takeWhile ?P (rev s)) = s"
    by (simp only: rev_append rev_rev_ident)
  moreover have "set (rev (takeWhile ?P (rev s))) \<subseteq> set cs"
    by (auto dest: set_takeWhileD)
  ultimately show ?thesis
    unfolding TrimRight_def by (intro exI [of _ "rev (takeWhile ?P (rev s))"] conjI)
qed

lemma TrimRight_list_all: "list_all P w \<Longrightarrow> list_all P (TrimRight w cs)"
proof -
  assume all: "list_all P w"
  obtain rest where "TrimRight w cs @ rest = w" using TrimRight_decomp by blast
  then have "list_all P (TrimRight w cs @ rest)" using all by simp
  then show ?thesis by simp
qed


lemma stamp_ends_digit:
  assumes "w \<in> lang stampRE"
  shows "w \<noteq> [] \<and> cls_d (last w)"
proof -
  have shape: "stampRE =
      Seqs ([Rep 8 (Atom cls_d), Lit ''-'', Rep 6 (Atom cls_d), Lit ''-'',
             Rep 3 (Atom cls_d), Lit ''-''] @ [Plus (Atom cls_d)])"
    by (simp add: stampRE_def)
  from assms obtain a b where "w = a @ b" and b: "b \<in> lang (Plus (Atom cls_d))"
    unfolding shape lang_Seqs_snoc by (rule concE)
  moreover from b have "b \<noteq> [] \<and> cls_d (last b)" by (rule Plus_Atom_ends)
  ultimately show ?thesis by simp
qed

lemma generic_parts:
  assumes "x \<in> lang genericDoneTagRE"
  obtains m w where "x = m @ w" and "m \<noteq> []" and "last m = CHR ''E'' \<or> cls_d (last m)"
    and "list_all cls_s w"
    and "\<forall>w'. list_all cls_s w' \<longrightarrow> m @ w' \<in> lang genericDoneTagRE"
proof -
  let ?X = "Seqs [Star (Atom cls_s), Lit '':'', Star (Atom cls_s), stampRE]"
  let ?core = "Seqs [Star (Atom cls_s), Atom cls_upper, Star (Atom cls_tag), Lit ''_DONE'', Opt ?X]"
  have G: "genericDoneTagRE =
      Seqs ([Star (Atom cls_s), Atom cls_upper, Star (Atom cls_tag), Lit ''_DONE'', Opt ?X]
            @ [Star (Atom cls_s)])"
    by (simp add: genericDoneTagRE_def)
  have langG: "lang genericDoneTagRE = conc (lang ?core) (lang (Star (Atom cls_s)))"
    unfolding G lang_Seqs_snoc ..
  from assms obtain m w where x: "x = m @ w" and m: "m \<in> lang ?core"
    and w: "w \<in> lang (Star (Atom cls_s))"
    unfolding langG by (rule concE)
  have core: "?core =
      Seqs ([Star (Atom cls_s), Atom cls_upper, Star (Atom cls_tag), Lit ''_DONE''] @ [Opt ?X])"
    by simp
  from m obtain k opt where mk: "m = k @ opt"
    and k: "k \<in> lang (Seqs [Star (Atom cls_s), Atom cls_upper, Star (Atom cls_tag), Lit ''_DONE''])"
    and opt: "opt \<in> lang (Opt ?X)"
    unfolding core lang_Seqs_snoc by (rule concE)
  have pre: "Seqs [Star (Atom cls_s), Atom cls_upper, Star (Atom cls_tag), Lit ''_DONE''] =
      Seqs ([Star (Atom cls_s), Atom cls_upper, Star (Atom cls_tag)] @ [Lit ''_DONE''])"
    by simp
  from k obtain j where kj: "k = j @ ''_DONE''"
    unfolding pre lang_Seqs_snoc lang_Lit by (auto elim: concE)
  have X: "?X = Seqs ([Star (Atom cls_s), Lit '':'', Star (Atom cls_s)] @ [stampRE])"
    by simp
  have "m \<noteq> [] \<and> (last m = CHR ''E'' \<or> cls_d (last m))"
  proof (cases "opt = []")
    case True
    with mk kj show ?thesis by simp
  next
    case False
    with opt have "opt \<in> lang ?X" by (simp add: lang_Opt)
    then obtain i st where "opt = i @ st" and "st \<in> lang stampRE"
      unfolding X lang_Seqs_snoc by (rule concE)
    moreover from this(2) have "st \<noteq> [] \<and> cls_d (last st)" by (rule stamp_ends_digit)
    ultimately show ?thesis using mk by simp
  qed
  moreover from w have "list_all cls_s w" by simp
  moreover have "\<forall>w'. list_all cls_s w' \<longrightarrow> m @ w' \<in> lang genericDoneTagRE"
  proof (intro allI impI)
    fix w' assume "list_all cls_s w'"
    then have "w' \<in> lang (Star (Atom cls_s))" by simp
    with m show "m @ w' \<in> lang genericDoneTagRE" unfolding langG by (rule concI)
  qed
  ultimately show thesis using x that by blast
qed

lemma digit_not_break: "cls_d c \<Longrightarrow> c \<noteq> CR \<and> c \<noteq> LF"
  by (auto simp: cls_d_def in_range_def)

lemma isGenericDoneTag_trim:
  assumes "isGenericDoneTag x"
  shows "isGenericDoneTag (TrimRight x [CR, LF])"
proof -
  from assms have inG: "x \<in> lang genericDoneTagRE" and noccb: "\<not> rx_match_prefix ccbDonePrefixRE x"
    by (simp_all add: isGenericDoneTag_def rx_match_lang)
  from inG obtain m w where x: "x = m @ w" and m: "m \<noteq> []"
    and e: "last m = CHR ''E'' \<or> cls_d (last m)"
    and w: "list_all cls_s w"
    and re: "\<forall>w'. list_all cls_s w' \<longrightarrow> m @ w' \<in> lang genericDoneTagRE"
    by (rule generic_parts)
  from e have "last m \<notin> set [CR, LF]" using digit_not_break by auto
  with m have t: "TrimRight x [CR, LF] = m @ TrimRight w [CR, LF]"
    unfolding x by (rule TrimRight_keep)
  have "list_all cls_s (TrimRight w [CR, LF])" using w by (rule TrimRight_list_all)
  then have 1: "rx_match genericDoneTagRE (TrimRight x [CR, LF])"
    unfolding t rx_match_lang using re by blast
  obtain rest where "TrimRight x [CR, LF] @ rest = x" using TrimRight_decomp by blast
  then have 2: "\<not> rx_match_prefix ccbDonePrefixRE (TrimRight x [CR, LF])"
    using noccb rx_match_prefix_append by metis
  from 1 2 show ?thesis by (simp add: isGenericDoneTag_def)
qed


declare trim_tokens.simps [simp del]

lemma strip_token_Nil: "strip_token toks [] = None"
  by (induction toks) (auto simp: HasPrefix_def)

lemma TrimSpace_Nil [simp]: "TrimSpace [] = []"
  by (simp add: TrimSpace_def trim_tokens.simps [of _ "[]"] strip_token_Nil)

lemma strip_token_Some: "strip_token toks s = Some s' \<Longrightarrow> \<exists>t\<in>set toks. t @ s' = s"
proof (induction toks)
  case Nil
  then show ?case by simp
next
  case (Cons t toks)
  show ?case
  proof (cases "t \<noteq> [] \<and> HasPrefix s t")
    case True
    with Cons.prems have "s' = drop (length t) s" and "take (length t) s = t"
      by (simp_all add: HasPrefix_def)
    then have "t @ s' = s" by (metis append_take_drop_id)
    then show ?thesis by simp
  next
    case False
    with Cons show ?thesis by auto
  qed
qed

lemma trim_tokens_keeps:
  "c \<in> set s \<Longrightarrow> \<forall>t\<in>set toks. c \<notin> set t \<Longrightarrow> c \<in> set (trim_tokens toks s)"
proof (induction toks s rule: trim_tokens.induct)
  case (1 toks s)
  show ?case
  proof (cases "strip_token toks s")
    case None
    with 1 show ?thesis by (simp add: trim_tokens.simps [of toks s])
  next
    case (Some s')
    then obtain t where "t \<in> set toks" "t @ s' = s" using strip_token_Some by blast
    with "1.prems" have "c \<in> set s'" by auto
    with 1 Some show ?thesis by (simp add: trim_tokens.simps [of toks s])
  qed
qed

lemma TrimSpace_keeps:
  assumes "c \<in> set s" and "\<forall>t\<in>set unicode_spaces. c \<notin> set t"
  shows "c \<in> set (TrimSpace s)"
proof -
  have "c \<in> set (rev (trim_tokens unicode_spaces s))"
    using assms by (simp add: trim_tokens_keeps)
  moreover have "\<forall>t\<in>set (map rev unicode_spaces). c \<notin> set t" using assms(2) by simp
  ultimately have "c \<in> set (trim_tokens (map rev unicode_spaces) (rev (trim_tokens unicode_spaces s)))"
    by (rule trim_tokens_keeps)
  then show ?thesis by (simp add: TrimSpace_def)
qed

lemma C_not_space: "\<forall>t\<in>set unicode_spaces. CHR ''C'' \<notin> set t"
  by (simp add: unicode_spaces_def)

lemma not_blank: "CHR ''C'' \<in> set s \<Longrightarrow> TrimSpace s \<noteq> []"
  using TrimSpace_keeps [OF _ C_not_space, of s] by auto

lemma isTrailingNoiseLine_Nil [simp]: "isTrailingNoiseLine []"
  by (simp add: isTrailingNoiseLine_def)

lemma ccb_prefix_has_C: "rx_match_prefix ccbDonePrefixRE line \<Longrightarrow> CHR ''C'' \<in> set line"
  unfolding rx_match_prefix_iff ccbDonePrefixRE_def
  by (auto simp: in_conc lang_Lit)

lemma ccb_line_not_noise: "rx_match_prefix ccbDonePrefixRE line \<Longrightarrow> \<not> isTrailingNoiseLine line"
  using ccb_prefix_has_C [of line] not_blank [of line]
  by (simp add: isTrailingNoiseLine_def isGenericDoneTag_def)

lemma Split_snoc: "sep \<notin> set x \<Longrightarrow> Split sep (t @ sep # x) = Split sep t @ [x]"
  by (simp add: Split_append [of sep t "sep # x"] Split_free_only)

lemma splitLines_snoc:
  "LF \<notin> set x \<Longrightarrow>
     splitLines (t @ LF # x) = (if t = [] then [[]] else splitLines t) @ [TrimRight x [CR, LF]]"
  by (simp add: splitLines_def Split_snoc)

lemma splitLines_nonempty: "t \<noteq> [] \<Longrightarrow> splitLines t \<noteq> []"
  by (simp add: splitLines_def)

lemma strip_while_snoc:
  "strip_while P (xs @ [y]) = (if P y then strip_while P xs else xs @ [y])"
  by (simp add: strip_while_def)

lemma strip_while_Nil [simp]: "strip_while P [] = []"
  by (simp add: strip_while_def)

lemma splitLines_LF_Cons:
  "LF \<notin> set x \<Longrightarrow> splitLines (LF # x) = [[], TrimRight x [CR, LF]]"
  using splitLines_snoc [of x "[]"] by simp

lemma strip_while_two: "P y \<Longrightarrow> P z \<Longrightarrow> strip_while P [y, z] = []"
  by (simp add: strip_while_def)

lemma IsDoneText_noise:
  assumes "LF \<notin> set x" and "isTrailingNoiseLine (TrimRight x [CR, LF])"
  shows "IsDoneText (t @ LF # x) r = IsDoneText t r"
proof (cases "t = []")
  case True
  with assms show ?thesis
    by (simp add: IsDoneText_def splitLines_LF_Cons) (simp add: splitLines_def)
next
  case False
  with assms show ?thesis
    by (simp add: IsDoneText_def splitLines_snoc)
qed

lemma StripDoneText_noise:
  assumes "LF \<notin> set x" and "isTrailingNoiseLine (TrimRight x [CR, LF])"
  shows "StripDoneText (t @ LF # x) r = StripDoneText t r"
proof (cases "t = []")
  case True
  with assms show ?thesis
    by (simp add: StripDoneText_def splitLines_LF_Cons strip_while_two Let_def)
      (simp add: splitLines_def)
next
  case False
  with assms splitLines_nonempty [OF False] show ?thesis
    by (simp add: StripDoneText_def splitLines_snoc strip_while_snoc Let_def)
qed

lemma StripTrailingMarkers_noise:
  assumes "LF \<notin> set x" and "isTrailingNoiseLine (TrimRight x [CR, LF])"
  shows "StripTrailingMarkers (t @ LF # x) = StripTrailingMarkers t"
proof (cases "t = []")
  case True
  with assms show ?thesis
    by (simp add: StripTrailingMarkers_def splitLines_LF_Cons strip_while_two Let_def)
      (simp add: splitLines_def)
next
  case False
  with assms show ?thesis
    by (simp add: StripTrailingMarkers_def splitLines_snoc strip_while_snoc Let_def)
qed

section \<open>Done detection and trailing noise\<close>

text \<open>
  C1. Let \<open>x\<close> be a line (it holds no newline) that \<open>isGenericDoneTag\<close> accepts: a tag
  \<open>[A-Z][A-Z0-9_]*_DONE\<close>, with or without the colon and stamp, that is not a \<open>CCB_DONE:\<close>
  line. Appending \<open>x\<close> as a new last line of any reply leaves \<open>IsDoneText\<close> unchanged, for
  every request ID.
\<close>

theorem IsDoneText_ignores_generic_done:
  assumes "LF \<notin> set x" and "isGenericDoneTag x"
  shows "IsDoneText (reply @ [LF] @ x) r = IsDoneText reply r"
proof -
  from assms(2) have "isGenericDoneTag (TrimRight x [CR, LF])" by (rule isGenericDoneTag_trim)
  then have "isTrailingNoiseLine (TrimRight x [CR, LF])" by (simp add: isTrailingNoiseLine_def)
  with assms(1) show ?thesis using IsDoneText_noise [of x reply r] by simp
qed


theorem IsDoneText_ignores_generic_done_witness:
  "isGenericDoneTag ''CODEX_DONE'' \<and>
   IsDoneText (''42'' @ [LF] @ ''CCB_DONE: r1'' @ [LF] @ ''CODEX_DONE'') ''r1''"
proof -
  have h1: "LF \<notin> set ''CODEX_DONE''" by simp
  have h2: "isGenericDoneTag ''CODEX_DONE''" by code_simp
  have v: "IsDoneText (''42'' @ [LF] @ ''CCB_DONE: r1'') ''r1''" by code_simp
  from IsDoneText_ignores_generic_done [OF h1 h2, of "''42'' @ [LF] @ ''CCB_DONE: r1''" "''r1''"]
    v h2
  show ?thesis by simp
qed

lemma TrimRight_CCB_DONE: "TrimRight ''CCB_DONE'' [CR, LF] = ''CCB_DONE''"
  by (simp add: TrimRight_def)

text \<open>
  C10. The bare line \<open>CCB_DONE\<close>, with no colon, is trailing noise: the generic pattern
  accepts it and the \<open>CCB_DONE\<close> exclusion asks for a colon. So \<open>IsDoneText\<close>,
  \<open>StripDoneText\<close> and \<open>StripTrailingMarkers\<close> skip it: appending it as a last line to
  any reply changes none of the three, for every request ID. A line that starts (after
  white space) with \<open>CCB_DONE\<close>, optional white space and a colon is never noise.
\<close>

theorem bare_CCB_DONE_is_noise:
  "isTrailingNoiseLine ''CCB_DONE'' \<and>
   IsDoneText (reply @ [LF] @ ''CCB_DONE'') r = IsDoneText reply r \<and>
   StripDoneText (reply @ [LF] @ ''CCB_DONE'') r = StripDoneText reply r \<and>
   StripTrailingMarkers (reply @ [LF] @ ''CCB_DONE'') = StripTrailingMarkers reply \<and>
   (rx_match_prefix ccbDonePrefixRE line \<longrightarrow> \<not> isTrailingNoiseLine line)"
proof -
  have noise: "isTrailingNoiseLine ''CCB_DONE''" by code_simp
  have line: "LF \<notin> set ''CCB_DONE''" by simp
  have trimmed: "isTrailingNoiseLine (TrimRight ''CCB_DONE'' [CR, LF])"
    unfolding TrimRight_CCB_DONE by (rule noise)
  have "IsDoneText (reply @ LF # ''CCB_DONE'') r = IsDoneText reply r"
    using line trimmed by (rule IsDoneText_noise)
  moreover have "StripDoneText (reply @ LF # ''CCB_DONE'') r = StripDoneText reply r"
    using line trimmed by (rule StripDoneText_noise)
  moreover have "StripTrailingMarkers (reply @ LF # ''CCB_DONE'') = StripTrailingMarkers reply"
    using line trimmed by (rule StripTrailingMarkers_noise)
  moreover have "rx_match_prefix ccbDonePrefixRE line \<longrightarrow> \<not> isTrailingNoiseLine line"
    using ccb_line_not_noise by blast
  ultimately show ?thesis using noise by simp
qed

theorem bare_CCB_DONE_is_noise_witness:
  "rx_match_prefix ccbDonePrefixRE ''CCB_DONE: r1'' \<and>
   \<not> isTrailingNoiseLine ''CCB_DONE: r1'' \<and>
   IsDoneText (''42'' @ [LF] @ ''CCB_DONE: r1'' @ [LF] @ ''CCB_DONE'') ''r1''"
proof -
  have h: "rx_match_prefix ccbDonePrefixRE ''CCB_DONE: r1''" by code_simp
  have v: "IsDoneText (''42'' @ [LF] @ ''CCB_DONE: r1'') ''r1''" by code_simp
  from bare_CCB_DONE_is_noise [of "''42'' @ [LF] @ ''CCB_DONE: r1''" "''r1''" "''CCB_DONE: r1''"]
    h v
  show ?thesis by simp
qed


section \<open>Stripping the done marker from a wrapped prompt\<close>

lemma Join_snoc: "xs \<noteq> [] \<Longrightarrow> Join (xs @ [y]) sep = Join xs sep @ sep @ y"
proof (induction xs)
  case Nil
  then show ?case by simp
next
  case (Cons x xs)
  then show ?case by (cases xs) simp_all
qed

lemma Join_Split: "Join (Split c s) [c] = s"
proof (induction s)
  case Nil
  show ?case by simp
next
  case (Cons d s)
  obtain q qs where S: "Split c s = q # qs" by (cases "Split c s") simp_all
  with Cons have J: "Join (q # qs) [c] = s" by simp
  show ?case
  proof (cases "d = c")
    case True
    with S J show ?thesis by simp
  next
    case False
    with S J show ?thesis by (cases qs) auto
  qed
qed

lemma Split_pieces_subset: "p \<in> set (Split sep s) \<Longrightarrow> set p \<subseteq> set s"
proof (induction s arbitrary: p)
  case Nil
  then show ?case by simp
next
  case (Cons c s)
  obtain q qs where S: "Split sep s = q # qs" by (cases "Split sep s") simp_all
  with Cons.IH have "set q \<subseteq> set s" and "\<And>p. p \<in> set qs \<Longrightarrow> set p \<subseteq> set s" by auto
  with Cons.prems S show ?case by (auto split: if_splits)
qed

lemma TrimRight_free: "set s \<inter> set cs = {} \<Longrightarrow> TrimRight s cs = s"
  by (rule TrimRight_id) (cases s rule: rev_cases, auto)

lemma TrimRight_subset: "set (TrimRight s cs) \<subseteq> set s"
proof -
  obtain rest where "TrimRight s cs @ rest = s" using TrimRight_decomp by blast
  then have "set (TrimRight s cs) \<union> set rest = set s" by (metis set_append)
  then show ?thesis by blast
qed

lemma TrimRight_tail: "set tail \<subseteq> set cs \<Longrightarrow> TrimRight (s @ tail) cs = TrimRight s cs"
proof -
  assume "set tail \<subseteq> set cs"
  then have "dropWhile (\<lambda>c. c \<in> set cs) (rev tail @ rev s) = dropWhile (\<lambda>c. c \<in> set cs) (rev s)"
    by (auto simp: dropWhile_append)
  then show ?thesis by (simp add: TrimRight_def)
qed

lemma splitLines_Join:
  assumes "CR \<notin> set s"
  shows "Join (splitLines s) [LF] = s"
proof (cases "s = []")
  case True
  then show ?thesis by (simp add: splitLines_def)
next
  case False
  have "TrimRight p [CR, LF] = p" if "p \<in> set (Split LF s)" for p
  proof -
    from that have "LF \<notin> set p" by (rule Split_no_sep)
    moreover from that assms have "CR \<notin> set p" using Split_pieces_subset by blast
    ultimately show ?thesis by (intro TrimRight_free) auto
  qed
  then have "map (\<lambda>l. TrimRight l [CR, LF]) (Split LF s) = Split LF s"
    by (simp add: map_idI)
  with False show ?thesis by (simp add: splitLines_def Join_Split)
qed

text \<open>The done line of request \<open>r\<close>.\<close>

lemma done_line_matches: "rx_match (DoneLineRE r) (''CCB_DONE: '' @ r)"
proof -
  have "[] @ ''CCB_DONE:'' @ '' '' @ r @ [] \<in> lang (DoneLineRE r)"
    unfolding DoneLineRE_def Seqs.simps lang.simps(5) lang.simps(2) lang_Lit conc_unit
    by (intro concI) (simp_all add: cls_s_def)
  then show ?thesis by (simp add: rx_match_lang)
qed

lemma done_line_ccb: "rx_match_prefix ccbDonePrefixRE (''CCB_DONE: '' @ r)"
proof -
  have "[] @ ''CCB_DONE'' @ [] @ '':'' \<in> lang ccbDonePrefixRE"
    unfolding ccbDonePrefixRE_def Seqs.simps lang.simps(5) lang.simps(2) lang_Lit conc_unit
    by (intro concI) simp_all
  then have "''CCB_DONE:'' \<in> lang ccbDonePrefixRE" by simp
  moreover have "''CCB_DONE: '' @ r = ''CCB_DONE:'' @ ('' '' @ r)" by simp
  ultimately show ?thesis unfolding rx_match_prefix_iff by blast
qed

lemma done_line_not_noise: "\<not> isTrailingNoiseLine (''CCB_DONE: '' @ r)"
  using done_line_ccb by (rule ccb_line_not_noise)

lemma done_line_trim:
  assumes "LF \<notin> set r" and "CR \<notin> set r"
  shows "TrimRight (''CCB_DONE: '' @ r) [CR, LF] = ''CCB_DONE: '' @ r"
proof (cases "r = []")
  case True
  then show ?thesis by (simp add: TrimRight_def)
next
  case False
  then have "last r \<in> set r" by simp
  with assms have "last r \<noteq> CR" "last r \<noteq> LF" by auto
  then have "last (''CCB_DONE: '' @ r) \<notin> set [CR, LF]" using False by simp
  then show ?thesis by (intro TrimRight_id) simp
qed


lemma strip_while_keep3: "\<not> P z \<Longrightarrow> strip_while P (xs @ [x, y, z]) = xs @ [x, y, z]"
  by (simp add: strip_while_def)

lemma strip_while_drop1: "P y \<Longrightarrow> \<not> P x \<Longrightarrow> strip_while P (xs @ [x, y]) = xs @ [x]"
  by (simp add: strip_while_def)

lemma StripDoneText_wrapped:
  assumes "LF \<notin> set r" and "CR \<notin> set r"
  shows "StripDoneText (WrapCodexPrompt m r @ [LF] @ ''CCB_DONE: '' @ r) r
           = TrimRight (Join (splitLines (WrapCodexPrompt m r)) [LF]) [LF, CR, TAB, SPC]"
proof -
  define dl where "dl = ''CCB_DONE: '' @ r"
  define P where "P = ''CCB_REQ_ID: '' @ r @ [LF, LF] @ TrimRight m [LF, CR, TAB, SPC] @ [LF, LF]
      @ ''IMPORTANT:'' @ [LF] @ ''- Reply normally.'' @ [LF]
      @ ''- Reply normally, in English.'' @ [LF]
      @ ''- End your reply with this exact final line (verbatim, on its own line):''"
  define A1 where "A1 = P @ LF # dl"
  define A2 where "A2 = A1 @ LF # []"
  define A3 where "A3 = A2 @ LF # dl"
  define LP where "LP = splitLines P"
  have Pne: "P \<noteq> []" by (simp add: P_def)
  have A1ne: "A1 \<noteq> []" and A2ne: "A2 \<noteq> []" by (simp_all add: A1_def A2_def)
  have free: "LF \<notin> set dl" using assms(1) by (simp add: dl_def)
  have trim: "TrimRight dl [CR, LF] = dl" unfolding dl_def using assms by (rule done_line_trim)
  have s1: "splitLines A1 = LP @ [dl]"
    unfolding A1_def LP_def using splitLines_snoc [OF free, of P] Pne trim by simp
  have s2: "splitLines A2 = LP @ [dl, []]"
    unfolding A2_def using splitLines_snoc [of "[]" A1] A1ne s1 by simp
  have s3: "splitLines A3 = LP @ [dl, [], dl]"
    unfolding A3_def using splitLines_snoc [OF free, of A2] A2ne s2 trim by simp
  have W: "WrapCodexPrompt m r = A2"
    by (simp add: WrapCodexPrompt_def A2_def A1_def P_def dl_def ReqIDPrefix_def DonePrefix_def)
  have T: "WrapCodexPrompt m r @ [LF] @ ''CCB_DONE: '' @ r = A3"
    unfolding W by (simp add: A3_def dl_def)
  have nn: "\<not> isTrailingNoiseLine dl" unfolding dl_def by (rule done_line_not_noise)
  have mt: "rx_match (DoneLineRE r) dl" unfolding dl_def by (rule done_line_matches)
  have left: "StripDoneText A3 r = TrimRight (Join (LP @ [dl]) [LF]) [LF, CR, TAB, SPC]"
    using nn mt
    by (simp add: StripDoneText_def s3 Let_def strip_while_keep3 strip_while_drop1 butlast_append)
  have "Join ((LP @ [dl]) @ [[]]) [LF] = Join (LP @ [dl]) [LF] @ [LF] @ []"
    by (rule Join_snoc) simp
  then have "Join (splitLines A2) [LF] = Join (LP @ [dl]) [LF] @ [LF]"
    by (simp add: s2)
  then have right: "TrimRight (Join (splitLines A2) [LF]) [LF, CR, TAB, SPC]
      = TrimRight (Join (LP @ [dl]) [LF]) [LF, CR, TAB, SPC]"
    by (simp add: TrimRight_tail)
  have "StripDoneText (WrapCodexPrompt m r @ [LF] @ ''CCB_DONE: '' @ r) r = StripDoneText A3 r"
    by (simp only: T)
  also have "\<dots> = TrimRight (Join (LP @ [dl]) [LF]) [LF, CR, TAB, SPC]"
    by (rule left)
  also have "\<dots> = TrimRight (Join (splitLines A2) [LF]) [LF, CR, TAB, SPC]"
    by (rule right [symmetric])
  also have "\<dots> = TrimRight (Join (splitLines (WrapCodexPrompt m r)) [LF]) [LF, CR, TAB, SPC]"
    by (simp only: W)
  finally show ?thesis .
qed

lemma WrapCodexPrompt_no_CR:
  assumes "CR \<notin> set m" and "CR \<notin> set r"
  shows "CR \<notin> set (WrapCodexPrompt m r)"
proof -
  have "CR \<notin> set (TrimRight m [LF, CR, TAB, SPC])"
    using assms(1) TrimRight_subset by blast
  with assms(2) show ?thesis
    by (simp add: WrapCodexPrompt_def ReqIDPrefix_def DonePrefix_def)
qed




section \<open>Pruning the pane registry\<close>

lemma prune_provMap_filter:
  "prune_provMap c pm =
     (filter (\<lambda>(j, e). \<not> (UpdatedAt e > 0 \<and> UpdatedAt e < c)) pm,
      int (length (filter (\<lambda>(j, e). UpdatedAt e > 0 \<and> UpdatedAt e < c) pm)))"
  by (induction pm) (auto simp: Let_def)

lemma entries_of_Cons:
  "entries_of ((p, pm) # ps) = map (\<lambda>(j, e). (p, j, e)) pm @ entries_of ps"
  by (simp add: entries_of_def)

lemma filter_keyed:
  "filter (is_stale c) (map (\<lambda>(j, e). (p, j, e)) pm)
     = map (\<lambda>(j, e). (p, j, e)) (filter (\<lambda>(j, e). UpdatedAt e > 0 \<and> UpdatedAt e < c) pm)"
  by (induction pm) (auto simp: is_stale_def)

lemma filter_keyed_not:
  "filter (\<lambda>x. \<not> is_stale c x) (map (\<lambda>(j, e). (p, j, e)) pm)
     = map (\<lambda>(j, e). (p, j, e)) (filter (\<lambda>(j, e). \<not> (UpdatedAt e > 0 \<and> UpdatedAt e < c)) pm)"
  by (induction pm) (auto simp: is_stale_def)

lemma prune_providers_filter:
  "entries_of (fst (prune_providers c ps)) = filter (\<lambda>x. \<not> is_stale c x) (entries_of ps) \<and>
   snd (prune_providers c ps) = int (length (filter (is_stale c) (entries_of ps)))"
proof (induction ps)
  case Nil
  show ?case by (simp add: entries_of_def)
next
  case (Cons a ps)
  obtain p pm where a: "a = (p, pm)" by (cases a)
  obtain rest' removed where R: "prune_providers c ps = (rest', removed)"
    by (cases "prune_providers c ps")
  with Cons have IH1: "entries_of rest' = filter (\<lambda>x. \<not> is_stale c x) (entries_of ps)"
    and IH2: "removed = int (length (filter (is_stale c) (entries_of ps)))" by simp_all
  define K where "K = filter (\<lambda>(j, e). \<not> (UpdatedAt e > 0 \<and> UpdatedAt e < c)) pm"
  define D where "D = filter (\<lambda>(j, e). UpdatedAt e > 0 \<and> UpdatedAt e < c) pm"
  define f where "f = (\<lambda>(j :: string, e :: PaneEntry). (p, j, e))"
  have pm: "prune_provMap c pm = (K, int (length D))"
    unfolding K_def D_def by (rule prune_provMap_filter)
  have step: "prune_providers c ((p, pm) # ps) =
      (if length K = 0 then (rest', int (length D) + removed)
       else ((p, K) # rest', int (length D) + removed))"
    by (simp add: pm R)
  have ent: "entries_of (fst (prune_providers c ((p, pm) # ps))) = map f K @ entries_of rest'"
    unfolding step f_def by (cases "K = []") (simp_all add: entries_of_def)
  have keep: "map f K = filter (\<lambda>x. \<not> is_stale c x) (map f pm)"
    unfolding K_def f_def by (rule filter_keyed_not [symmetric])
  have drop: "map f D = filter (is_stale c) (map f pm)"
    unfolding D_def f_def by (rule filter_keyed [symmetric])
  have all: "entries_of ((p, pm) # ps) = map f pm @ entries_of ps"
    unfolding f_def by (rule entries_of_Cons)
  have "entries_of (fst (prune_providers c ((p, pm) # ps)))
      = filter (\<lambda>x. \<not> is_stale c x) (entries_of ((p, pm) # ps))"
    unfolding ent all keep IH1 by simp
  moreover have "snd (prune_providers c ((p, pm) # ps))
      = int (length (filter (is_stale c) (entries_of ((p, pm) # ps))))"
  proof -
    have "length D = length (map f D)" by simp
    also have "\<dots> = length (filter (is_stale c) (map f pm))" by (simp only: drop)
    finally have "int (length D) + removed
        = int (length (filter (is_stale c) (map f pm @ entries_of ps)))"
      by (simp add: IH2)
    then show ?thesis unfolding step all by (cases "K = []") simp_all
  qed
  ultimately show ?case unfolding a by blast
qed

lemma length_filter_split:
  "int (length xs) - int (length (filter (\<lambda>x. \<not> P x) xs)) = int (length (filter P xs))"
  using sum_length_filter_compl [of P xs] by simp

text \<open>
  C7, as the code has it. For every ttl (zero standing for 7 days) \<open>PruneStalePanes\<close>
  removes exactly the entries whose \<open>updated_at\<close> is positive and less than the cutoff,
  the Unix second of \<open>now - ttl\<close>; every other entry stays, in particular an entry whose
  \<open>updated_at\<close> is zero or negative. The count returned is the number of entries
  removed, and the registry is saved when that number is positive.
\<close>

theorem PruneStalePanes_removes_stamped_stale:
  assumes "PruneStalePanes now ttl reg = (count, reg', saved)"
    and "cutoff = cutoff_of now (if ttl = 0 then registryTTL else ttl)"
  shows "entries_of (Providers reg') = filter (\<lambda>x. \<not> is_stale cutoff x) (entries_of (Providers reg)) \<and>
         count = int (length (filter (is_stale cutoff) (entries_of (Providers reg)))) \<and>
         count = int (length (entries_of (Providers reg))) - int (length (entries_of (Providers reg'))) \<and>
         saved = (count > 0)"
proof -
  obtain ps removed where P: "prune_providers cutoff (Providers reg) = (ps, removed)"
    by (cases "prune_providers cutoff (Providers reg)")
  with assms have reg': "Providers reg' = ps" and count: "count = removed" and saved: "saved = (removed > 0)"
    by (auto simp: PruneStalePanes_def Let_def split: if_splits)
  from prune_providers_filter [of cutoff "Providers reg"] P
  have 1: "entries_of ps = filter (\<lambda>x. \<not> is_stale cutoff x) (entries_of (Providers reg))"
    and 2: "removed = int (length (filter (is_stale cutoff) (entries_of (Providers reg))))"
    by simp_all
  show ?thesis
    unfolding reg' count saved 1
    using 2 by (simp add: length_filter_split)
qed


theorem PruneStalePanes_removes_stamped_stale_witness:
  "fst (PruneStalePanes example_now 0 example_registry) = 1 \<and>
   entries_of (Providers (fst (snd (PruneStalePanes example_now 0 example_registry))))
     = [(''gemini'', ''abc'', unstamped_entry), (''gemini'', ''def'', fresh_entry)]"
proof -
  define R where "R = PruneStalePanes example_now 0 example_registry"
  define c where "c = cutoff_of example_now registryTTL"
  have h1: "PruneStalePanes example_now 0 example_registry = (fst R, fst (snd R), snd (snd R))"
    by (simp add: R_def)
  have h2: "c = cutoff_of example_now (if (0::int) = 0 then registryTTL else 0)"
    by (simp add: c_def)
  have kept: "filter (\<lambda>x. \<not> is_stale c x) (entries_of (Providers example_registry))
      = [(''gemini'', ''abc'', unstamped_entry), (''gemini'', ''def'', fresh_entry)]"
    unfolding c_def by code_simp
  have gone: "int (length (filter (is_stale c) (entries_of (Providers example_registry)))) = 1"
    unfolding c_def by code_simp
  from PruneStalePanes_removes_stamped_stale [OF h1 h2]
  show ?thesis unfolding kept gone R_def by simp
qed

text \<open>
  The claim without the guard fails: an entry with \<open>updated_at = 0\<close> is older than the
  cutoff and survives the pruning.
\<close>

theorem PruneStalePanes_keeps_unstamped_counterexample:
  "UpdatedAt unstamped_entry < cutoff_of example_now registryTTL \<and>
   (''gemini'', ''abc'', unstamped_entry) \<in> set (entries_of (Providers example_registry)) \<and>
   (''gemini'', ''abc'', unstamped_entry)
     \<in> set (entries_of (Providers (fst (snd (PruneStalePanes example_now 0 example_registry)))))"
  by code_simp

section \<open>The daemon's token check\<close>

declare hex_nat.simps [simp del]

declare rr_loop.simps [simp del]

lemma hex_nat_nonempty: "hex_nat n \<noteq> []"
  by (subst hex_nat.simps) simp

lemma RandomToken_nonempty: "RandomToken rand_read t \<noteq> []"
proof (cases rand_read)
  case None
  then show ?thesis by (simp add: RandomToken_def hex_int_def hex_nat_nonempty)
next
  case (Some b)
  have "[0..<16] = 0 # [1..<16]" by (simp add: upt_conv_Cons)
  with Some show ?thesis by (simp add: RandomToken_def hex_byte_def)
qed

lemma NewServer_token_nonempty: "token (NewServer cfg rand_read now) \<noteq> []"
  by (simp add: NewServer_def Let_def RandomToken_nonempty)

text \<open>
  C6. The server's token is not empty (\<open>NewServer\<close> replaces an empty configured token
  by a random one, lemma \<open>NewServer_token_nonempty\<close>). For every decoded request whose
  \<open>token\<close> field is absent, is not a string, or is a string other than the server's
  token, \<open>handleConn\<close> writes the object \<open>{status: "error", error: "invalid token"}\<close> and
  closes the connection; no handler is called and the server, with its last-activity
  time, is as before.
\<close>

theorem handleConn_rejects_bad_token:
  assumes "token s \<noteq> []" and "req ''token'' \<noteq> Some (JString (token s))"
  shows "handleConn s now (Some req) =
           (s, [SetDeadline,
                SendJSON [(''status'', JString ''error''), (''error'', JString ''invalid token'')],
                CloseConn])"
proof -
  have "getStr req ''token'' \<noteq> token s"
  proof (cases "req ''token''")
    case None
    with assms(1) show ?thesis by (simp add: getStr_def)
  next
    case (Some v)
    with assms show ?thesis by (cases v) (auto simp: getStr_def)
  qed
  then show ?thesis by (simp add: handleConn_def sendError_def)
qed

theorem handleConn_rejects_bad_token_witness:
  "token example_server \<noteq> [] \<and> example_request ''token'' = None \<and>
   handleConn example_server (example_now + 5) (Some example_request) =
     (example_server,
      [SetDeadline,
       SendJSON [(''status'', JString ''error''), (''error'', JString ''invalid token'')],
       CloseConn])"
proof -
  have h1: "token example_server \<noteq> []"
    unfolding example_server_def by (rule NewServer_token_nonempty)
  have h0: "example_request ''token'' = None" by (simp add: example_request_def)
  then have h2: "example_request ''token'' \<noteq> Some (JString (token example_server))" by simp
  from handleConn_rejects_bad_token [of example_server example_request, OF h1 h2] h1 h0
  show ?thesis by simp
qed

section \<open>The parent monitor\<close>

text \<open>
  C8. On Unix a tick of the parent monitor never shuts the server down, whether or not
  the parent process exists: \<open>os.FindProcess\<close> does not fail there, and the monitor does
  not probe the process it returns. The state file stays and the listener stays open.
\<close>

theorem parentMonitor_tick_unix_never_stops:
  "parentMonitor_tick Unix alive s fs = Inr (Again, s, fs)"
  by (simp add: parentMonitor_tick_def FindProcess_err_def)

text \<open>
  The lock package's \<open>isPIDAlive\<close> does probe the process, and on Windows the monitor does
  shut the server down when the parent is gone.
\<close>

lemma isPIDAlive_unix: "isPIDAlive Unix alive pid = (0 < pid \<and> alive pid)"
  by (auto simp: isPIDAlive_def FindProcess_err_def)

lemma parentMonitor_tick_windows:
  "\<not> alive (parentPID s) \<Longrightarrow> \<not> shutdown_closed s \<Longrightarrow>
   parentMonitor_tick Windows alive s fs =
     Inr (Stop, s\<lparr>shutdown_closed := True, listener_open := False, pool_running := False\<rparr>,
          removeState s fs)"
  by (simp add: parentMonitor_tick_def FindProcess_err_def Shutdown_def)

section \<open>Project identity\<close>

lemma hex_byte_length: "length (concat (map (\<lambda>i. hex_byte (h i)) xs)) = 2 * length xs"
  by (induction xs) (simp_all add: hex_byte_def)

lemma hexdigit_lower: "hexdigit n \<in> set ''0123456789abcdef''"
proof -
  have "n mod 16 < length ''0123456789abcdef''" by simp
  then show ?thesis unfolding hexdigit_def by (rule nth_mem)
qed

lemma hex_byte_lower:
  "list_all (\<lambda>c. c \<in> set ''0123456789abcdef'') (concat (map (\<lambda>i. hex_byte (h i)) xs))"
  using hexdigit_lower by (induction xs) (simp_all add: hex_byte_def)


section \<open>The reverse tailer on a file that ends in a blank line\<close>

lemma int64_two: "int64 2 = 2"
  by (simp add: int64_def)

lemma Split_two_blank: "LF \<notin> set u \<Longrightarrow> Split LF (u @ [LF, LF]) = [u, [], []]"
  using Split_free [of LF u "[LF, LF]"] by simp

lemma strip_while_blank_tail: "u \<noteq> [] \<Longrightarrow> strip_while (\<lambda>l. l = []) [u, [], []] = [u]"
  by (simp add: strip_while_def)

lemma rr_loop_step:
  assumes "0 < pos" and "int (length collected) < int64 (n + 1)" and "0 < c"
  shows "rr_loop content c n pos collected leftover =
     (let readSize = min pos c;
          pos' = pos - readSize;
          parts = Split LF (take (nat readSize) (drop (nat pos') content) @ leftover)
      in rr_loop content c n pos'
           (map (\<lambda>p. TrimRight p [CR]) (if pos' > 0 then tl parts else parts) @ collected)
           (if pos' > 0 then hd parts else []))"
  by (subst rr_loop.simps) (use assms in \<open>simp add: Let_def min_def\<close>)

lemma rr_loop_stop:
  "\<not> (0 < pos \<and> int (length collected) < int64 (n + 1) \<and> 0 < c) \<Longrightarrow>
   rr_loop content c n pos collected leftover = (collected, leftover)"
  by (subst rr_loop.simps) auto

text \<open>
  C4. A file that holds one line \<open>xs\<close> and then a blank line (\<open>xs\<close>, newline, newline),
  read with a chunk size \<open>c\<close> of at least 3 that is less than the file's size (the
  default 8192 is one such size for a long line), and \<open>n = 1\<close>. The first chunk already
  yields \<open>n + 1\<close> empty lines, so the loop stops before the start of the file; the
  partial first token of the chunk is then taken for a line, and \<open>ReadLastLines\<close> returns
  the last \<open>c - 2\<close> bytes of \<open>xs\<close>, which is not a line of the file.
\<close>

theorem ReadLastLines_cuts_last_line:
  assumes "LF \<notin> set xs" and "CR \<notin> set xs"
    and "3 \<le> ChunkSize r" and "ChunkSize r < int (length xs) + 2"
    and "fs (RFilePath r) = Some (xs @ [LF, LF])"
  shows "ReadLastLines fs r 1 = Inr [drop (length xs + 2 - nat (ChunkSize r)) xs] \<and>
         drop (length xs + 2 - nat (ChunkSize r)) xs \<noteq> xs"
proof -
  define c where "c = ChunkSize r"
  define k where "k = length xs + 2 - nat c"
  define u where "u = drop k xs"
  define content where "content = xs @ [LF, LF]"
  have c3: "3 \<le> c" and cN: "c < int (length xs) + 2" using assms(3,4) by (simp_all add: c_def)
  have k: "int k = int (length xs) + 2 - c" "k \<le> length xs" "0 < k"
    using c3 cN by (simp_all add: k_def)
  have ulen: "length u = nat c - 2" using c3 cN by (simp add: u_def k_def)
  then have une: "u \<noteq> []" using c3 by auto
  have ufree: "LF \<notin> set u" "CR \<notin> set u"
    using assms(1,2) by (auto simp: u_def dest: in_set_dropD)
  have buf: "take (nat c) (drop k content) = u @ [LF, LF]"
    using k(2) ulen c3 by (simp add: content_def u_def)
  have parts: "Split LF (take (nat c) (drop k content) @ []) = [u, [], []]"
    by (simp only: buf append_Nil2 Split_two_blank [OF ufree(1)])
  have pos: "min (int (length content)) c = c" "int (length content) - c = int k"
    "0 < int (length content)"
    using k cN by (simp_all add: content_def)
  have "rr_loop content c 1 (int (length content)) [] [] =
      (let readSize = min (int (length content)) c;
           pos' = int (length content) - readSize;
           parts = Split LF (take (nat readSize) (drop (nat pos') content) @ [])
       in rr_loop content c 1 pos'
            (map (\<lambda>p. TrimRight p [CR]) (if pos' > 0 then tl parts else parts) @ [])
            (if pos' > 0 then hd parts else []))"
    using pos(3) c3 by (intro rr_loop_step) (simp_all add: int64_two)
  also have "\<dots> = rr_loop content c 1 (int k) [[], []] u"
    unfolding Let_def pos nat_int parts using k(3) by simp
  finally have first:
    "rr_loop content c 1 (int (length content)) [] [] = rr_loop content c 1 (int k) [[], []] u" .
  have second: "rr_loop content c 1 (int k) [[], []] u = ([[], []], u)"
    by (rule rr_loop_stop) (simp add: int64_two)
  have trim: "TrimRight u [CR] = u" using ufree(2) by (intro TrimRight_free) simp
  have cne: "content \<noteq> []" by (simp add: content_def)
  have "ReadLastLines fs r 1 = Inr [u]"
    using assms(5) c3 une cne
    by (simp add: ReadLastLines_def Let_def content_def [symmetric] c_def [symmetric]
        first second trim strip_while_blank_tail)
  moreover have "u \<noteq> xs"
  proof
    assume "u = xs"
    then have "length u = length xs" by simp
    with k(2,3) show False by (simp add: u_def)
  qed
  ultimately show ?thesis by (simp add: u_def k_def c_def)
qed

theorem ReadLastLines_cuts_last_line_witness:
  "ReadLastLines [''out.log'' \<mapsto> ''abc'' @ [LF, LF]] \<lparr>RFilePath = ''out.log'', ChunkSize = 3\<rparr> 1
     = Inr [''c'']"
proof -
  let ?r = "\<lparr>RFilePath = ''out.log'', ChunkSize = 3\<rparr>"
  let ?fs = "[''out.log'' \<mapsto> ''abc'' @ [LF, LF]]"
  have h1: "LF \<notin> set ''abc''" and h2: "CR \<notin> set ''abc''" by simp_all
  have h3: "3 \<le> ChunkSize ?r" and h4: "ChunkSize ?r < int (length ''abc'') + 2" by simp_all
  have h5: "?fs (RFilePath ?r) = Some (''abc'' @ [LF, LF])" by simp
  from ReadLastLines_cuts_last_line [of "''abc''" ?r ?fs, OF h1 h2 h3 h4 h5] show ?thesis by simp
qed

text \<open>
  On the same file the default chunk size reads the whole file at once and returns the
  line itself, as \<open>readAllLines\<close> does: the result depends on the chunk size. The loop
  test \<open>len(collected) < n+1\<close> also wraps for the largest \<open>n\<close>, and then nothing is read.
\<close>

lemma ReadLastLines_depends_on_chunk_size:
  "ReadLastLines [''out.log'' \<mapsto> ''abc'' @ [LF, LF]] (NewReverseReader ''out.log'') 1
     = Inr [''abc''] \<and>
   readAllLines [''out.log'' \<mapsto> ''abc'' @ [LF, LF]] ''out.log'' = Inr [''abc''] \<and>
   ReadLastLines [''out.log'' \<mapsto> ''abc'' @ [LF]] (NewReverseReader ''out.log'')
     9223372036854775807 = Inr []"
  by code_simp

text \<open>
  Where the reverse tailer is right. The loop keeps this invariant: the pieces of the
  file from \<open>pos\<close> on are \<open>leftover\<close> followed by the raw lines collected so far (or just
  those lines, once the start of the file is reached).
\<close>

lemma Split_prepend_chunk:
  assumes "Split LF rest = lo # R"
  shows "Split LF (buf @ rest) = Split LF (buf @ lo) @ R"
proof -
  have free: "LF \<notin> set lo" using Split_no_sep [of lo LF rest] assms by simp
  have "Split LF (buf @ rest) = butlast (Split LF buf) @ (last (Split LF buf) @ lo) # R"
    by (simp add: Split_append [of LF buf rest] assms)
  moreover have "Split LF (buf @ lo) = butlast (Split LF buf) @ [last (Split LF buf) @ lo]"
    by (simp add: Split_append [of LF buf lo] Split_free_only [OF free])
  ultimately show ?thesis by simp
qed

lemma drop_chunk: "drop a xs = take b (drop a xs) @ drop (a + b) xs"
proof -
  have "take b (drop a xs) @ drop b (drop a xs) = drop a xs" by (rule append_take_drop_id)
  then show ?thesis by (simp only: drop_drop add.commute [of a b])
qed

lemma rr_loop_invariant:
  assumes "0 < c" and "0 \<le> pos" and "pos \<le> int (length content)"
    and "Split LF (drop (nat pos) content) = (if 0 < pos then leftover # R else R)"
    and "pos = 0 \<longrightarrow> leftover = []"
    and "collected = map (\<lambda>p. TrimRight p [CR]) R"
  shows "\<exists>pos' R' lo'.
           rr_loop content c n pos collected leftover = (map (\<lambda>p. TrimRight p [CR]) R', lo') \<and>
           0 \<le> pos' \<and> pos' \<le> int (length content) \<and>
           Split LF (drop (nat pos') content) = (if 0 < pos' then lo' # R' else R') \<and>
           (pos' = 0 \<longrightarrow> lo' = []) \<and>
           (0 < pos' \<longrightarrow> int64 (n + 1) \<le> int (length R'))"
  using assms
proof (induction content c n pos collected leftover arbitrary: R rule: rr_loop.induct)
  case (1 content chunkSize n pos collected leftover)
  let ?trim = "\<lambda>p. TrimRight p [CR]"
  show ?case
  proof (cases "0 < pos \<and> int (length collected) < int64 (n + 1) \<and> 0 < chunkSize")
    case False
    then have stop: "rr_loop content chunkSize n pos collected leftover = (collected, leftover)"
      by (rule rr_loop_stop)
    from False "1.prems"(1,6) have "0 < pos \<longrightarrow> int64 (n + 1) \<le> int (length R)" by auto
    with stop "1.prems" show ?thesis by blast
  next
    case True
    define readSize where "readSize = (if pos < chunkSize then pos else chunkSize)"
    define pos' where "pos' = pos - readSize"
    define buf where "buf = take (nat readSize) (drop (nat pos') content)"
    define parts where "parts = Split LF (buf @ leftover)"
    define leftover' where "leftover' = (if pos' > 0 then hd parts else [])"
    define parts' where "parts' = (if pos' > 0 then tl parts else parts)"
    define collected' where "collected' = map ?trim parts' @ collected"
    have rs: "0 < readSize" "readSize \<le> pos" using True by (auto simp: readSize_def)
    have p': "0 \<le> pos'" "pos' \<le> int (length content)" "nat pos' + nat readSize = nat pos"
      using rs "1.prems"(3) by (auto simp: pos'_def)
    have step: "rr_loop content chunkSize n pos collected leftover
        = rr_loop content chunkSize n pos' collected' leftover'"
      by (subst rr_loop.simps)
        (simp add: True Let_def readSize_def pos'_def buf_def parts_def leftover'_def
          parts'_def collected'_def)
    have tail: "Split LF (drop (nat pos) content) = leftover # R"
      using "1.prems"(4) True by simp
    have "drop (nat pos') content = buf @ drop (nat pos) content"
      unfolding buf_def using drop_chunk [of "nat pos'" content "nat readSize"] p'(3)
      by simp
    then have whole: "Split LF (drop (nat pos') content) = parts @ R"
      unfolding parts_def using Split_prepend_chunk [OF tail] by simp
    have pne: "parts \<noteq> []" by (simp add: parts_def)
    define R' where "R' = parts' @ R"
    have inv4: "Split LF (drop (nat pos') content) = (if 0 < pos' then leftover' # R' else R')"
      using whole pne by (cases parts) (auto simp: leftover'_def parts'_def R'_def)
    have inv5: "pos' = 0 \<longrightarrow> leftover' = []" by (simp add: leftover'_def)
    have inv6: "collected' = map ?trim R'" by (simp add: collected'_def R'_def "1.prems"(6))
    have "\<exists>pos'' R'' lo''.
        rr_loop content chunkSize n pos' collected' leftover' = (map ?trim R'', lo'') \<and>
        0 \<le> pos'' \<and> pos'' \<le> int (length content) \<and>
        Split LF (drop (nat pos'') content) = (if 0 < pos'' then lo'' # R'' else R'') \<and>
        (pos'' = 0 \<longrightarrow> lo'' = []) \<and>
        (0 < pos'' \<longrightarrow> int64 (n + 1) \<le> int (length R''))"
      using True "1.prems"(1) p'(1,2) inv4 inv5 inv6
      by (intro "1.IH" [OF True readSize_def pos'_def buf_def _ parts_def leftover'_def
            parts'_def collected'_def]) (simp_all add: buf_def)
    then show ?thesis unfolding step .
  qed
qed


lemma strip_while_append_keep:
  "strip_while P B \<noteq> [] \<Longrightarrow> strip_while P (A @ B) = A @ strip_while P B"
  by (auto simp: strip_while_def dropWhile_append)

lemma strip_while_drops_one:
  assumes "2 \<le> length B" and "\<not> P (B ! (length B - 2))"
  shows "length B - 1 \<le> length (strip_while P B)"
proof -
  from assms(1) obtain B1 y where B1: "B = B1 @ [y]"
    by (cases B rule: rev_cases) auto
  with assms(1) obtain B0 x where "B1 = B0 @ [x]"
    by (cases B1 rule: rev_cases) auto
  with B1 have B: "B = B0 @ [x, y]" by simp
  then have "B ! (length B - 2) = x" by (simp add: nth_append)
  with assms(2) have "\<not> P x" by simp
  then show ?thesis unfolding B by (simp add: strip_while_def)
qed

lemma drop_last_append:
  "k \<le> length B \<Longrightarrow> drop (length (A @ B) - k) (A @ B) = drop (length B - k) B"
  by simp

lemma int64_small: "0 \<le> x \<Longrightarrow> x < 2 ^ 63 \<Longrightarrow> int64 x = x"
  by (simp add: int64_def)

text \<open>
  So for a file with at most one empty token at its end (no blank last line), every
  \<open>n\<close> from 1 up to the largest \<open>int\<close> less one and every chunk size, \<open>ReadLastLines\<close>
  returns the last \<open>n\<close> of the lines that \<open>readAllLines\<close> returns, all of them when there
  are fewer.
\<close>

lemma ReadLastLines_agrees_with_readAllLines:
  assumes "fs (RFilePath r) = Some content"
    and "0 < n" and "n < 2 ^ 63 - 1"
    and "L = map (\<lambda>p. TrimRight p [CR]) (Split LF content)"
    and "2 \<le> length L \<longrightarrow> L ! (length L - 2) \<noteq> []"
  shows "ReadLastLines fs r n =
           Inr (drop (length (strip_while (\<lambda>l. l = []) L) - nat n) (strip_while (\<lambda>l. l = []) L))"
proof (cases "content = []")
  case True
  with assms show ?thesis by (simp add: ReadLastLines_def strip_while_def)
next
  case False
  let ?trim = "\<lambda>p. TrimRight p [CR]"
  let ?strip = "strip_while (\<lambda>l. l = [])"
  define c where "c = (if ChunkSize r \<le> 0 then defaultChunkSize else ChunkSize r)"
  have c: "0 < c" by (simp add: c_def defaultChunkSize_def)
  have n1: "int64 (n + 1) = n + 1" using assms(2,3) by (intro int64_small) simp_all
  have "\<exists>pos' R' lo'.
      rr_loop content c n (int (length content)) [] [] = (map ?trim R', lo') \<and>
      0 \<le> pos' \<and> pos' \<le> int (length content) \<and>
      Split LF (drop (nat pos') content) = (if 0 < pos' then lo' # R' else R') \<and>
      (pos' = 0 \<longrightarrow> lo' = []) \<and>
      (0 < pos' \<longrightarrow> int64 (n + 1) \<le> int (length R'))"
    using c False by (intro rr_loop_invariant [where R = "[]"]) simp_all
  then obtain pos' R' lo' where
    loop: "rr_loop content c n (int (length content)) [] [] = (map ?trim R', lo')"
    and pos': "0 \<le> pos'" "pos' \<le> int (length content)"
    and split: "Split LF (drop (nat pos') content) = (if 0 < pos' then lo' # R' else R')"
    and start: "pos' = 0 \<longrightarrow> lo' = []"
    and full: "0 < pos' \<longrightarrow> n + 1 \<le> int (length R')"
    unfolding n1 by blast
  define Y where "Y = (if lo' \<noteq> [] then [?trim lo'] else [])"
  define C where "C = map ?trim R'"
  have last_n: "(if int (length xs) > n then drop (nat (int (length xs) - n)) xs else xs)
      = drop (length xs - nat n) xs" for xs :: "string list"
    using assms(2) by (auto simp: nat_diff_distrib)
  have result: "ReadLastLines fs r n = Inr (drop (length (?strip (Y @ C)) - nat n) (?strip (Y @ C)))"
    using assms(1,2) False
    by (simp add: ReadLastLines_def Let_def c_def [symmetric] loop last_n Y_def C_def)
  show ?thesis
  proof (cases "0 < pos'")
    case False
    with pos' start split have "lo' = []" "R' = Split LF content" by simp_all
    then show ?thesis unfolding result by (simp add: Y_def C_def assms(4))
  next
    case True
    with split have tail: "Split LF (drop (nat pos') content) = lo' # R'" by simp
    have "Split LF (take (nat pos') content @ drop (nat pos') content)
        = Split LF (take (nat pos') content @ lo') @ R'"
      using tail by (rule Split_prepend_chunk)
    then have whole: "Split LF content = Split LF (take (nat pos') content @ lo') @ R'" by simp
    define X where "X = map ?trim (Split LF (take (nat pos') content @ lo'))"
    have L: "L = X @ C" by (simp add: assms(4) whole X_def C_def)
    from True full assms(2) have len: "nat n + 1 \<le> length C" by (simp add: C_def)
    then have two: "2 \<le> length C" "2 \<le> length L" using assms(2) by (simp_all add: L)
    have "length L - 2 = length X + (length C - 2)" using two(1) by (simp add: L)
    then have "L ! (length L - 2) = C ! (length C - 2)"
      by (simp only: L nth_append_length_plus)
    with assms(5) two(2) have "C ! (length C - 2) \<noteq> []" by simp
    with two(1) have "length C - 1 \<le> length (?strip C)" by (intro strip_while_drops_one) simp_all
    with len have enough: "nat n \<le> length (?strip C)" by linarith
    then have ne: "?strip C \<noteq> []" using assms(2) by auto
    have "drop (length (?strip (Y @ C)) - nat n) (?strip (Y @ C))
        = drop (length (?strip C) - nat n) (?strip C)"
      unfolding strip_while_append_keep [OF ne] using enough by (rule drop_last_append)
    moreover have "drop (length (?strip L) - nat n) (?strip L)
        = drop (length (?strip C) - nat n) (?strip C)"
      unfolding L strip_while_append_keep [OF ne] using enough by (rule drop_last_append)
    ultimately show ?thesis unfolding result by simp
  qed
qed

section \<open>The order of the resolver's stages\<close>

lemma Source_env: "resolveFromEnv r env = Some res \<Longrightarrow> Source res = ''env''"
  by (auto simp: resolveFromEnv_def Let_def empty_session_def split: if_splits option.splits)

lemma Source_registry_project:
  "resolveFromRegistryByProject r pid = Some res \<Longrightarrow> Source res = ''registry_project''"
  by (auto simp: resolveFromRegistryByProject_def split: if_splits option.splits)

lemma Source_registry_unfiltered:
  "resolveFromRegistryUnfiltered r = Some res \<Longrightarrow> Source res = ''registry_unfiltered''"
  by (auto simp: resolveFromRegistryUnfiltered_def Let_def split: if_splits option.splits)

lemma Source_session_file:
  "resolveFromSessionFile env wd = Some res \<Longrightarrow> Source res = ''session_file''"
  by (auto simp: resolveFromSessionFile_def Let_def empty_session_def split: if_splits)

lemma Source_registry_pane:
  "resolveFromRegistryByPane r env = Some res \<Longrightarrow> Source res = ''registry_pane''"
  by (auto simp: resolveFromRegistryByPane_def Let_def split: if_splits option.splits)

lemma Source_fallback:
  "resolveBestFallback r wd = Inr (Some res) \<Longrightarrow> Source res = ''fallback''"
  by (auto simp: resolveBestFallback_def split: sum.splits option.splits)

text \<open>
  C5. \<open>Resolve\<close> tries the stages in the order env, registry_project,
  registry_unfiltered, session_file, registry_pane, fallback, and returns what the first
  successful stage returns: if the stages before stage \<open>k\<close> fail and stage \<open>k\<close> yields
  \<open>res\<close>, then \<open>Resolve\<close> returns \<open>res\<close> and its \<open>Source\<close> is the name of stage \<open>k\<close>, whatever
  the later stages would have returned.
\<close>

theorem Resolve_returns_first_success:
  assumes "k < 6"
    and "\<forall>j<k. stage_results Sum256 r env workDir ! j = Inr None"
    and "stage_results Sum256 r env workDir ! k = Inr (Some res)"
  shows "Resolve Sum256 r env workDir = Inr (Some res) \<and> Source res = stage_names ! k"
proof -
  let ?S = "stage_results Sum256 r env workDir"
  let ?pid = "ComputeCCBProjectID Sum256 env workDir"
  have failed: "?S ! j = Inr None" if "j < k" for j using assms(2) that by blast
  from assms(1) consider "k = 0" | "k = 1" | "k = 2" | "k = 3" | "k = 4" | "k = 5" by linarith
  then show ?thesis
  proof cases
    case 1
    with assms(3) have "resolveFromEnv r env = Some res" by (simp add: stage_results_def)
    then show ?thesis using 1 by (simp add: Resolve_def stage_names_def Source_env)
  next
    case 2
    then have "?S ! 0 = Inr None" by (intro failed) simp
    then have 0: "resolveFromEnv r env = None" by (simp add: stage_results_def)
    from 2 assms(3) have "resolveFromRegistryByProject r ?pid = Some res"
      by (simp add: stage_results_def)
    then show ?thesis using 0 2
      by (simp add: Resolve_def stage_names_def Source_registry_project)
  next
    case 3
    then have "?S ! 0 = Inr None" "?S ! 1 = Inr None" by (intro failed, simp)+
    then have 0: "resolveFromEnv r env = None" "resolveFromRegistryByProject r ?pid = None"
      by (simp_all add: stage_results_def)
    from 3 assms(3) have "resolveFromRegistryUnfiltered r = Some res"
      by (simp add: stage_results_def)
    then show ?thesis using 0 3
      by (simp add: Resolve_def stage_names_def Source_registry_unfiltered)
  next
    case 4
    then have "?S ! 0 = Inr None" "?S ! 1 = Inr None" "?S ! 2 = Inr None"
      by (intro failed, simp)+
    then have 0: "resolveFromEnv r env = None" "resolveFromRegistryByProject r ?pid = None"
      "resolveFromRegistryUnfiltered r = None"
      by (simp_all add: stage_results_def)
    from 4 assms(3) have "resolveFromSessionFile env workDir = Some res"
      by (simp add: stage_results_def)
    then show ?thesis using 0 4
      by (simp add: Resolve_def stage_names_def Source_session_file)
  next
    case 5
    then have "?S ! 0 = Inr None" "?S ! 1 = Inr None" "?S ! 2 = Inr None" "?S ! 3 = Inr None"
      by (intro failed, simp)+
    then have 0: "resolveFromEnv r env = None" "resolveFromRegistryByProject r ?pid = None"
      "resolveFromRegistryUnfiltered r = None" "resolveFromSessionFile env workDir = None"
      by (simp_all add: stage_results_def)
    from 5 assms(3) have "resolveFromRegistryByPane r env = Some res"
      by (simp add: stage_results_def)
    then show ?thesis using 0 5
      by (simp add: Resolve_def stage_names_def Source_registry_pane)
  next
    case 6
    then have "?S ! 0 = Inr None" "?S ! 1 = Inr None" "?S ! 2 = Inr None" "?S ! 3 = Inr None"
      "?S ! 4 = Inr None"
      by (intro failed, simp)+
    then have 0: "resolveFromEnv r env = None" "resolveFromRegistryByProject r ?pid = None"
      "resolveFromRegistryUnfiltered r = None" "resolveFromSessionFile env workDir = None"
      "resolveFromRegistryByPane r env = None"
      by (simp_all add: stage_results_def)
    from 6 assms(3) have "resolveBestFallback r workDir = Inr (Some res)"
      by (simp add: stage_results_def)
    then show ?thesis using 0 6
      by (simp add: Resolve_def stage_names_def Source_fallback)
  qed
qed

lemma example_stages:
  "stage_results zero_digest example_resolver example_env ''/w'' =
     [Inr None, Inr None, Inr None,
      Inr (Some (empty_session\<lparr>rs_PaneID := ''%42'', Source := ''session_file''\<rparr>)),
      Inr (Some \<lparr>rs_SessionID = ''s-1'', rs_ProjectKey = ''claude'',
                 rs_LogFile = ''/logs/s-1.jsonl'', rs_PaneID = [], Source = ''registry_pane''\<rparr>),
      Inr (Some \<lparr>rs_SessionID = ''s-9'', rs_ProjectKey = ''-w'',
                 rs_LogFile = ''/home/u/.claude/projects/-w/s-9.jsonl'', rs_PaneID = [],
                 Source = ''fallback''\<rparr>)]"
  by code_simp

theorem Resolve_returns_first_success_witness:
  "stage_results zero_digest example_resolver example_env ''/w'' ! 4 \<noteq> Inr None \<and>
   stage_results zero_digest example_resolver example_env ''/w'' ! 5 \<noteq> Inr None \<and>
   Resolve zero_digest example_resolver example_env ''/w''
     = Inr (Some (empty_session\<lparr>rs_PaneID := ''%42'', Source := ''session_file''\<rparr>))"
proof -
  let ?S = "stage_results zero_digest example_resolver example_env ''/w''"
  have h1: "(3::nat) < 6" by simp
  have h2: "\<forall>j<3. ?S ! j = Inr None"
    unfolding example_stages by (simp add: less_Suc_eq numeral_3_eq_3)
  have h3: "?S ! 3 = Inr (Some (empty_session\<lparr>rs_PaneID := ''%42'', Source := ''session_file''\<rparr>))"
    unfolding example_stages by simp
  have later: "?S ! 4 \<noteq> Inr None" "?S ! 5 \<noteq> Inr None"
    unfolding example_stages by simp_all
  from Resolve_returns_first_success [OF h1 h2 h3] later show ?thesis by simp
qed

end
